theory Spec2Isabelle
  imports Main "HOL-Library.AList" "HOL-Library.Extended_Nat" "HOL-Library.Sublist"
begin

section \<open>Values\<close>

text \<open>
  What \<^verbatim>\<open>JSON.parse\<close> returns. An object lists its own properties in the order
  \<^verbatim>\<open>Object.entries\<close> enumerates them. Numbers are kept as integers: the handlers
  only ever test a number for being zero.
\<close>

datatype json =
    JNull
  | JBool bool
  | JNum int
  | JStr string
  | JArr "json list"
  | JObj "(string \<times> json) list"

text \<open>
  The operations document once \<^verbatim>\<open>Upload\<close> instances are written into it. An
  \<^verbatim>\<open>Upload\<close> is held by reference: \<open>TUpload u\<close> is the address \<open>u\<close> of the
  instance in the store of uploads, so two places holding \<open>TUpload u\<close> hold the same
  instance.
\<close>

datatype tree =
    TNull
  | TBool bool
  | TNum int
  | TStr string
  | TArr "tree list"
  | TObj "(string \<times> tree) list"
  | TUpload nat

primrec of_json :: "json \<Rightarrow> tree" where
  "of_json JNull = TNull"
| "of_json (JBool b) = TBool b"
| "of_json (JNum n) = TNum n"
| "of_json (JStr s) = TStr s"
| "of_json (JArr xs) = TArr (map of_json xs)"
| "of_json (JObj kvs) = TObj (map (map_prod id of_json) kvs)"

text \<open>\<^verbatim>\<open>typeof x === "object"\<close>: arrays and \<^verbatim>\<open>null\<close> have the object type.\<close>

fun typeof_object :: "json \<Rightarrow> bool" where
  "typeof_object JNull = True"
| "typeof_object (JArr xs) = True"
| "typeof_object (JObj kvs) = True"
| "typeof_object (JBool b) = False"
| "typeof_object (JNum n) = False"
| "typeof_object (JStr s) = False"

text \<open>The truthiness \<^verbatim>\<open>!x\<close> negates.\<close>

fun truthy :: "json \<Rightarrow> bool" where
  "truthy JNull = False"
| "truthy (JBool b) = b"
| "truthy (JNum n) = (n \<noteq> 0)"
| "truthy (JStr s) = (s \<noteq> [])"
| "truthy (JArr xs) = True"
| "truthy (JObj kvs) = True"

fun isArray :: "json \<Rightarrow> bool" where
  "isArray (JArr xs) = True"
| "isArray (JNull) = False"
| "isArray (JBool b) = False"
| "isArray (JNum n) = False"
| "isArray (JStr s) = False"
| "isArray (JObj kvs) = False"

fun Object_entries :: "json \<Rightarrow> (string \<times> json) list" where
  "Object_entries (JObj kvs) = kvs"
| "Object_entries (JNull) = []"
| "Object_entries (JBool b) = []"
| "Object_entries (JNum n) = []"
| "Object_entries (JStr s) = []"
| "Object_entries (JArr xs) = []"

text \<open>
  What the variable \<^verbatim>\<open>operations\<close> holds: a primitive (or \<^verbatim>\<open>null\<close>), or the
  address of a parsed object or array in the store of roots.
\<close>

datatype jsval = Prim json | Ref nat

fun is_falsy :: "jsval option \<Rightarrow> bool" where
  "is_falsy None = True"
| "is_falsy (Some (Prim j)) = (\<not> truthy j)"
| "is_falsy (Some (Ref r)) = False"

section \<open>Errors\<close>

text \<open>The messages of the errors \<^verbatim>\<open>processRequest\<close> creates, with what they interpolate.\<close>

datatype message =
    FieldSizeExceeded string nat
  | InvalidJsonOperations
  | InvalidTypeOperations
  | MisorderedMap
  | InvalidJsonMap
  | InvalidTypeMap
  | MaxFilesExceeded enat
  | InvalidTypeMapEntry string
  | InvalidTypeMapEntryIndex string nat
  | InvalidObjectPath string nat string
  | MisorderedFiles
  | FileTruncated enat
  | MissingOperations
  | MissingMap
  | FileMissing
  | Disconnected

text \<open>
  An error is one made by \<^verbatim>\<open>createError(status, message)\<close>, or one handed in by the
  tokenizer or by a file stream.
\<close>

datatype error = createError nat message | ForeignError string

fun statusCode :: "error \<Rightarrow> nat option" where
  "statusCode (createError st m) = Some st"
| "statusCode (ForeignError x) = None"

section \<open>Promises and uploads\<close>

text \<open>
  A promise settles once: \<^verbatim>\<open>resolve\<close> and \<^verbatim>\<open>reject\<close> act on a pending promise
  only.
\<close>

datatype 'a promise_state = Pending | Resolved 'a | Rejected error

fun resolve_p :: "'a promise_state \<Rightarrow> 'a \<Rightarrow> 'a promise_state" where
  "resolve_p Pending v = Resolved v"
| "resolve_p (Resolved w) v = Resolved w"
| "resolve_p (Rejected e) v = Rejected e"

fun reject_p :: "'a promise_state \<Rightarrow> error \<Rightarrow> 'a promise_state" where
  "reject_p Pending e = Rejected e"
| "reject_p (Resolved w) e = Resolved w"
| "reject_p (Rejected d) e = Rejected d"

text \<open>
  The class \<^verbatim>\<open>Upload\<close>: its promise (resolved with the address of a file upload)
  and its field \<^verbatim>\<open>file\<close>.
\<close>

record upload =
  promise :: "nat promise_state"
  file' :: "nat option"

definition new_Upload :: upload where
  "new_Upload = \<lparr> promise = Pending, file' = None \<rparr>"

text \<open>\<^verbatim>\<open>this.resolve = file => { this.file = file; resolve(file); }\<close>\<close>

definition Upload_resolve :: "upload \<Rightarrow> nat \<Rightarrow> upload" where
  "Upload_resolve u f = u\<lparr> file' := Some f, promise := resolve_p (promise u) f \<rparr>"

text \<open>\<^verbatim>\<open>this.reject = reject\<close>\<close>

definition Upload_reject :: "upload \<Rightarrow> error \<Rightarrow> upload" where
  "Upload_reject u e = u\<lparr> promise := reject_p (promise u) e \<rparr>"

text \<open>
  What one run of the file handler allocates: the \<^verbatim>\<open>FileUpload\<close> object, the
  variable \<^verbatim>\<open>fileError\<close> its factory closes over, the part's stream and the
  capacitor it is piped into.
\<close>

record file_upload =
  filename :: string
  mimetype :: string
  encoding :: string
  fileError :: "error option"
  stream_piped :: bool
  stream_resumed :: bool
  capacitor_destroyed :: bool
  capacitor_released :: bool

record file_info =
  info_filename :: string
  info_encoding :: string
  info_mimeType :: string

section \<open>Paths into the operations\<close>

text \<open>
  Modelled from the spec: the operation \<^verbatim>\<open>objectPath(operations).set(path, value)\<close>
  of the package object-path, which is not among the sources. The spec calls it a
  "set value at path" operation over nested objects and arrays that raises on an invalid
  path (an index out of range, a traversal through a non-container), with paths such as
  \<^verbatim>\<open>variables.file\<close> and \<^verbatim>\<open>variables.files.0\<close>. A path is split at its dots. In an
  object a segment is a key; the last segment may name a key the object does not have
  yet. In an array a segment is the decimal numeral of an index in range. Everything else
  raises, here \<open>None\<close>. The spec does not say what the empty path does: here it writes
  nothing and raises nothing, and no theorem below concludes anything about it.
\<close>

fun split_dot :: "string \<Rightarrow> string list" where
  "split_dot [] = [[]]"
| "split_dot (c # cs) =
     (if c = CHR ''.'' then [] # split_dot cs
      else (case split_dot cs of [] \<Rightarrow> [[c]] | seg # segs \<Rightarrow> (c # seg) # segs))"

definition digit :: "nat \<Rightarrow> char" where
  "digit d = ''0123456789'' ! d"

fun show_nat :: "nat \<Rightarrow> string" where
  "show_nat n = (if n < 10 then [digit n] else show_nat (n div 10) @ [digit (n mod 10)])"

declare show_nat.simps [simp del]

definition array_index :: "string \<Rightarrow> 'a list \<Rightarrow> nat option" where
  "array_index k xs = List.find (\<lambda>i. show_nat i = k) [0..<length xs]"

fun tree_set :: "tree \<Rightarrow> string list \<Rightarrow> tree \<Rightarrow> tree option" where
  "tree_set (TObj kvs) [k] v = Some (TObj (AList.update k v kvs))"
| "tree_set (TObj kvs) (k # k' # ks) v =
     (case map_of kvs k of
        None \<Rightarrow> None
      | Some c \<Rightarrow>
          (case tree_set c (k' # ks) v of
             None \<Rightarrow> None
           | Some c' \<Rightarrow> Some (TObj (AList.update k c' kvs))))"
| "tree_set (TArr xs) [k] v =
     (case array_index k xs of
        None \<Rightarrow> None
      | Some i \<Rightarrow> Some (TArr (xs[i := v])))"
| "tree_set (TArr xs) (k # k' # ks) v =
     (case array_index k xs of
        None \<Rightarrow> None
      | Some i \<Rightarrow>
          (case tree_set (xs ! i) (k' # ks) v of
             None \<Rightarrow> None
           | Some c' \<Rightarrow> Some (TArr (xs[i := c']))))"
| "tree_set t ks v = None"

fun tree_get :: "tree \<Rightarrow> string list \<Rightarrow> tree option" where
  "tree_get t [] = Some t"
| "tree_get (TObj kvs) (k # ks) =
     (case map_of kvs k of None \<Rightarrow> None | Some c \<Rightarrow> tree_get c ks)"
| "tree_get (TArr xs) (k # ks) =
     (case array_index k xs of None \<Rightarrow> None | Some i \<Rightarrow> tree_get (xs ! i) ks)"
| "tree_get t (k # ks) = None"

definition objectPath_set :: "tree \<Rightarrow> string \<Rightarrow> tree \<Rightarrow> tree option" where
  "objectPath_set t path v = (if path = [] then Some t else tree_set t (split_dot path) v)"

text \<open>
  The value at a path, if the path leads anywhere. The sources never read through a
  path; this reader walks a path the way \<open>tree_set\<close> does, and is what the theorems
  about bound locations are stated with.
\<close>

definition objectPath_get :: "tree \<Rightarrow> string \<Rightarrow> tree option" where
  "objectPath_get t path = tree_get t (split_dot path)"

section \<open>The state of one call of processRequest\<close>

record options =
  maxFieldSize :: nat
  maxFileSize :: enat
  maxFiles :: enat

text \<open>The defaults: 1 MB, and no bound on the size and the number of files.\<close>

definition default_options :: options where
  "default_options = \<lparr> maxFieldSize = 1000000, maxFileSize = \<infinity>, maxFiles = \<infinity> \<rparr>"

datatype parser_state = Parsing | Destroyed "error option"

text \<open>
  The variables the handlers close over (\<^verbatim>\<open>released\<close>, \<^verbatim>\<open>exitError\<close>,
  \<^verbatim>\<open>operations\<close>, \<^verbatim>\<open>operationsPath\<close>, \<^verbatim>\<open>map\<close>), the objects they reach: the parsed
  roots, the \<^verbatim>\<open>Upload\<close> instances and the file uploads, each a store indexed by
  address; the promise the call returns (\<open>outer\<close>); the parser and the request; the
  streams \<^verbatim>\<open>ignoreStream\<close> was called on, by field name; and, for each handler
  registered with \<^verbatim>\<open>once\<close>, whether it has run.

  \<^verbatim>\<open>operationsPath\<close> is the address of the root \<^verbatim>\<open>objectPath\<close> was bound to. The
  table \<^verbatim>\<open>map\<close> is a list of field names with the addresses of their uploads, in
  insertion order.
\<close>

record state =
  released :: bool
  exitError :: "error option"
  operations :: "jsval option"
  operationsPath :: "nat option"
  map_tbl :: "(string \<times> nat) list option"
  roots :: "tree list"
  uploads :: "upload list"
  files :: "file_upload list"
  outer :: "jsval option promise_state"
  parser :: parser_state
  request_piped :: bool
  request_resumed :: bool
  resume_scheduled :: bool
  ignored :: "string list"
  filesLimit_ran :: bool
  finish_ran :: bool
  response_close_ran :: bool
  request_close_ran :: bool

definition init :: state where
  "init = \<lparr> released = False, exitError = None, operations = None, operationsPath = None,
            map_tbl = None, roots = [], uploads = [], files = [], outer = Pending,
            parser = Parsing, request_piped = True, request_resumed = False,
            resume_scheduled = False, ignored = [],
            filesLimit_ran = False, finish_ran = False,
            response_close_ran = False, request_close_ran = False \<rparr>"

section \<open>exit\<close>

text \<open>
  \<^verbatim>\<open>for (const upload of map.values()) if (!upload.file) upload.reject?.(error)\<close>,
  over the addresses in the table. The loop of the finish handler is the same loop.
\<close>

fun reject_missing :: "error \<Rightarrow> nat list \<Rightarrow> upload list \<Rightarrow> upload list" where
  "reject_missing e [] us = us"
| "reject_missing e (a # as) us =
     reject_missing e as
       (if file' (us ! a) = None then us[a := Upload_reject (us ! a) e] else us)"

definition exit :: "state \<Rightarrow> error \<Rightarrow> bool \<Rightarrow> state" where
  "exit s error isParserError =
     (case exitError s of
        Some e \<Rightarrow> s
      | None \<Rightarrow>
          (let s1 = s\<lparr> exitError := Some error \<rparr>;
               s2 = (case map_tbl s1 of
                       None \<Rightarrow> s1
                     | Some tbl \<Rightarrow>
                         s1\<lparr> uploads := reject_missing error (map snd tbl) (uploads s1) \<rparr>)
           in s2\<lparr> parser := Destroyed (if isParserError then None else Some error),
                  request_piped := False,
                  resume_scheduled := True,
                  outer := reject_p (outer s2) error \<rparr>))"

section \<open>The field handler\<close>

text \<open>
  \<^verbatim>\<open>operationsPath.set(path, upload)\<close> inside its \<^verbatim>\<open>try\<close>: \<open>None\<close> when it throws,
  which it also does when \<^verbatim>\<open>operationsPath\<close> is undefined.
\<close>

definition operationsPath_set :: "state \<Rightarrow> string \<Rightarrow> tree \<Rightarrow> state option" where
  "operationsPath_set s path v =
     (case operationsPath s of
        None \<Rightarrow> None
      | Some r \<Rightarrow>
          (case objectPath_set (roots s ! r) path v of
             None \<Rightarrow> None
           | Some t \<Rightarrow> Some (s\<lparr> roots := (roots s)[r := t] \<rparr>)))"

text \<open>
  The two loops of the \<^verbatim>\<open>map\<close> case. \<open>Inl (e, s)\<close> is \<^verbatim>\<open>return exit(e)\<close> taken in
  the state \<open>s\<close>; \<open>Inr s\<close> is the loop run to its end. \<open>a\<close> is the address of the
  upload \<^verbatim>\<open>map.get(fieldName)\<close> returns, the one just stored.
\<close>

fun bind_paths :: "state \<Rightarrow> string \<Rightarrow> nat \<Rightarrow> nat \<Rightarrow> json list \<Rightarrow> (error \<times> state) + state" where
  "bind_paths s fieldName a index [] = Inr s"
| "bind_paths s fieldName a index (p # paths) =
     (case p of
        JStr path \<Rightarrow>
          (case operationsPath_set s path (TUpload a) of
             None \<Rightarrow> Inl (createError 400 (InvalidObjectPath fieldName index path), s)
           | Some s' \<Rightarrow> bind_paths s' fieldName a (Suc index) paths)
      | _ \<Rightarrow> Inl (createError 400 (InvalidTypeMapEntryIndex fieldName index), s))"

definition the_map :: "state \<Rightarrow> (string \<times> nat) list" where
  "the_map s = (case map_tbl s of None \<Rightarrow> [] | Some tbl \<Rightarrow> tbl)"

fun bind_entries :: "state \<Rightarrow> (string \<times> json) list \<Rightarrow> (error \<times> state) + state" where
  "bind_entries s [] = Inr s"
| "bind_entries s ((fieldName, p) # rest) =
     (case p of
        JArr paths \<Rightarrow>
          (case bind_paths
                  (s\<lparr> uploads := uploads s @ [new_Upload],
                      map_tbl := Some (AList.update fieldName (length (uploads s)) (the_map s)) \<rparr>)
                  fieldName (length (uploads s)) 0 paths of
             Inl x \<Rightarrow> Inl x
           | Inr s' \<Rightarrow> bind_entries s' rest)
      | _ \<Rightarrow> Inl (createError 400 (InvalidTypeMapEntry fieldName), s))"

definition on_field :: "options \<Rightarrow> state \<Rightarrow> string \<Rightarrow> json option \<Rightarrow> bool \<Rightarrow> state" where
  "on_field opts s fieldName value valueTruncated =
     (if valueTruncated then
        exit s (createError 413 (FieldSizeExceeded fieldName (maxFieldSize opts))) False
      else if fieldName = ''operations'' then
        (case value of
           None \<Rightarrow> exit s (createError 400 InvalidJsonOperations) False
         | Some j \<Rightarrow>
             if \<not> typeof_object j \<or> \<not> truthy j then
               exit (s\<lparr> operations := Some (Prim j) \<rparr>)
                 (createError 400 InvalidTypeOperations) False
             else
               s\<lparr> roots := roots s @ [of_json j],
                  operations := Some (Ref (length (roots s))),
                  operationsPath := Some (length (roots s)) \<rparr>)
      else if fieldName = ''map'' then
        (if is_falsy (operations s) then
           exit s (createError 400 MisorderedMap) False
         else
           (case value of
              None \<Rightarrow> exit s (createError 400 InvalidJsonMap) False
            | Some parsedMap \<Rightarrow>
                if \<not> typeof_object parsedMap \<or> \<not> truthy parsedMap \<or> isArray parsedMap then
                  exit s (createError 400 InvalidTypeMap) False
                else if enat (length (Object_entries parsedMap)) > maxFiles opts then
                  exit s (createError 413 (MaxFilesExceeded (maxFiles opts))) False
                else
                  (case bind_entries (s\<lparr> map_tbl := Some [] \<rparr>) (Object_entries parsedMap) of
                     Inl (e, s') \<Rightarrow> exit s' e False
                   | Inr s' \<Rightarrow> s'\<lparr> outer := resolve_p (outer s') (operations s') \<rparr>)))
      else s)"

section \<open>The file handler and the streams of a file\<close>

definition new_file :: "file_info \<Rightarrow> file_upload" where
  "new_file i =
     \<lparr> filename = info_filename i, mimetype = info_mimeType i, encoding = info_encoding i,
       fileError = None, stream_piped = True, stream_resumed = False,
       capacitor_destroyed = False, capacitor_released = False \<rparr>"

definition on_file :: "state \<Rightarrow> string \<Rightarrow> file_info \<Rightarrow> state" where
  "on_file s fieldName i =
     (case map_tbl s of
        None \<Rightarrow>
          exit (s\<lparr> ignored := ignored s @ [fieldName] \<rparr>)
            (createError 400 MisorderedFiles) False
      | Some tbl \<Rightarrow>
          (case map_of tbl fieldName of
             None \<Rightarrow> s\<lparr> ignored := ignored s @ [fieldName] \<rparr>
           | Some a \<Rightarrow>
               s\<lparr> files := files s @ [new_file i],
                  uploads := (uploads s)[a := Upload_resolve (uploads s ! a) (length (files s))] \<rparr>))"

text \<open>
  The handlers the file handler registers on the stream and on the capacitor of the file
  at address \<open>f\<close>. No stream has an address that was not allocated.
\<close>

definition on_stream_limit :: "options \<Rightarrow> state \<Rightarrow> nat \<Rightarrow> state" where
  "on_stream_limit opts s f =
     (if f < length (files s) then
        s\<lparr> files := (files s)[f := (files s ! f)
              \<lparr> fileError := Some (createError 413 (FileTruncated (maxFileSize opts))),
                stream_piped := False,
                capacitor_destroyed := True \<rparr>] \<rparr>
      else s)"

definition on_stream_error :: "state \<Rightarrow> nat \<Rightarrow> error \<Rightarrow> state" where
  "on_stream_error s f error =
     (if f < length (files s) then
        s\<lparr> files := (files s)[f := (files s ! f)
              \<lparr> fileError := Some error,
                stream_piped := False,
                capacitor_destroyed := True \<rparr>] \<rparr>
      else s)"

definition on_capacitor_error :: "state \<Rightarrow> nat \<Rightarrow> state" where
  "on_capacitor_error s f =
     (if f < length (files s) then
        s\<lparr> files := (files s)[f := (files s ! f)
              \<lparr> stream_piped := False, stream_resumed := True \<rparr>] \<rparr>
      else s)"

text \<open>
  Modelled from the spec: \<^verbatim>\<open>capacitor.createReadStream(options)\<close>, a method of the
  class \<^verbatim>\<open>WriteStream\<close> of the package fs-capacitor, which is not among the sources.
  The spec calls the capacitor a spool "supporting create-read-stream-on-demand and
  explicit resource release", whose release is the cleanup of its storage, and has the
  read fail once the resources are released. A capacitor that was destroyed (by
  \<^verbatim>\<open>capacitor.destroy\<close>) or released (by \<^verbatim>\<open>capacitor.release\<close>) opens no read: the
  call throws an error of the capacitor's own, one for each of the two states, a
  destroyed capacitor coming first. Otherwise the call returns a fresh read stream over
  the bytes of the file at address \<open>f\<close>, here \<open>Inr f\<close>.
\<close>

definition ReadAfterDestroyedError :: error where
  "ReadAfterDestroyedError = ForeignError ''ReadAfterDestroyedError''"

definition ReadAfterReleasedError :: error where
  "ReadAfterReleasedError = ForeignError ''ReadAfterReleasedError''"

definition capacitor_createReadStream :: "file_upload \<Rightarrow> nat \<Rightarrow> error + nat" where
  "capacitor_createReadStream capacitor f =
     (if capacitor_destroyed capacitor then Inl ReadAfterDestroyedError
      else if capacitor_released capacitor then Inl ReadAfterReleasedError
      else Inr f)"

text \<open>
  \<^verbatim>\<open>createReadStream\<close> of the file at address \<open>f\<close>: \<open>Inl e\<close> throws \<open>e\<close>; with no
  error of its own to throw it returns what the capacitor's \<^verbatim>\<open>createReadStream\<close>
  returns, or throws what that throws.
\<close>

definition createReadStream :: "state \<Rightarrow> nat \<Rightarrow> error + nat" where
  "createReadStream s f =
     (case (case fileError (files s ! f) of
              Some e \<Rightarrow> Some e
            | None \<Rightarrow> if released s then exitError s else None) of
        Some error \<Rightarrow> Inl error
      | None \<Rightarrow> capacitor_createReadStream (files s ! f) f)"

section \<open>The other handlers\<close>

definition on_filesLimit :: "options \<Rightarrow> state \<Rightarrow> state" where
  "on_filesLimit opts s = exit s (createError 413 (MaxFilesExceeded (maxFiles opts))) False"

definition on_finish :: "state \<Rightarrow> state" where
  "on_finish s =
     (let s1 = s\<lparr> request_piped := False, request_resumed := True \<rparr>
      in if is_falsy (operations s1) then exit s1 (createError 400 MissingOperations) False
         else
           (case map_tbl s1 of
              None \<Rightarrow> exit s1 (createError 400 MissingMap) False
            | Some tbl \<Rightarrow>
                s1\<lparr> uploads :=
                      reject_missing (createError 400 FileMissing) (map snd tbl) (uploads s1) \<rparr>))"

definition on_error :: "state \<Rightarrow> error \<Rightarrow> state" where
  "on_error s error = exit s error True"

text \<open>
  \<^verbatim>\<open>for (const upload of map.values()) if (upload.file) upload.file.capacitor.release()\<close>
\<close>

fun release_files :: "nat list \<Rightarrow> upload list \<Rightarrow> file_upload list \<Rightarrow> file_upload list" where
  "release_files [] us fs = fs"
| "release_files (a # as) us fs =
     release_files as us
       (case file' (us ! a) of
          None \<Rightarrow> fs
        | Some f \<Rightarrow> fs[f := (fs ! f)\<lparr> capacitor_released := True \<rparr>])"

definition on_response_close :: "state \<Rightarrow> state" where
  "on_response_close s =
     (let s1 = s\<lparr> released := True \<rparr>
      in case map_tbl s1 of
           None \<Rightarrow> s1
         | Some tbl \<Rightarrow> s1\<lparr> files := release_files (map snd tbl) (uploads s1) (files s1) \<rparr>)"

definition on_request_close :: "state \<Rightarrow> bool \<Rightarrow> state" where
  "on_request_close s readableEnded =
     (if \<not> readableEnded then exit s (createError 499 Disconnected) False else s)"

section \<open>Events\<close>

text \<open>
  What the tokenizer, the response, the request and the streams emit. A field event
  carries what \<^verbatim>\<open>JSON.parse\<close> makes of its value (\<open>None\<close> when it throws) and the
  flag \<^verbatim>\<open>valueTruncated\<close>; the close event of the request carries
  \<^verbatim>\<open>request.readableEnded\<close>. A handler registered with \<^verbatim>\<open>once\<close> runs for the
  first event only.
\<close>

datatype event =
    Field string "json option" bool
  | File string file_info
  | FilesLimit
  | Finish
  | ParserError error
  | ResponseClose
  | RequestClose bool
  | StreamLimit nat
  | StreamError nat error
  | CapacitorError nat

fun step :: "options \<Rightarrow> state \<Rightarrow> event \<Rightarrow> state" where
  "step opts s (Field fieldName value valueTruncated) =
     on_field opts s fieldName value valueTruncated"
| "step opts s (File fieldName i) = on_file s fieldName i"
| "step opts s FilesLimit =
     (if filesLimit_ran s then s else on_filesLimit opts (s\<lparr> filesLimit_ran := True \<rparr>))"
| "step opts s Finish =
     (if finish_ran s then s else on_finish (s\<lparr> finish_ran := True \<rparr>))"
| "step opts s (ParserError error) = on_error s error"
| "step opts s ResponseClose =
     (if response_close_ran s then s
      else on_response_close (s\<lparr> response_close_ran := True \<rparr>))"
| "step opts s (RequestClose readableEnded) =
     (if request_close_ran s then s
      else on_request_close (s\<lparr> request_close_ran := True \<rparr>) readableEnded)"
| "step opts s (StreamLimit f) = on_stream_limit opts s f"
| "step opts s (StreamError f error) = on_stream_error s f error"
| "step opts s (CapacitorError f) = on_capacitor_error s f"

definition run_from :: "options \<Rightarrow> state \<Rightarrow> event list \<Rightarrow> state" where
  "run_from opts s evs = foldl (step opts) s evs"

definition run :: "options \<Rightarrow> event list \<Rightarrow> state" where
  "run opts evs = run_from opts init evs"

text \<open>
  Modelled from the spec: the events the tokenizer (the package busboy, which is not among
  the sources) makes of the file parts of a body. \<^verbatim>\<open>processRequest\<close> creates it with
  the limit \<^verbatim>\<open>files: maxFiles\<close>, and the spec has "exceeding it via actual file
  arrivals" take "the filesLimit path": every file part that arrives counts, whatever its
  field name. A part within the limit gives a \<^verbatim>\<open>file\<close> event; the first part beyond it
  gives the \<^verbatim>\<open>filesLimit\<close> event, and no part beyond the limit gives a \<^verbatim>\<open>file\<close>
  event. \<open>n\<close> is the number of file parts that have arrived.
\<close>

fun file_events :: "enat \<Rightarrow> nat \<Rightarrow> (string \<times> file_info) list \<Rightarrow> event list" where
  "file_events limit n [] = []"
| "file_events limit n ((fieldName, i) # parts) =
     (if enat n < limit then File fieldName i # file_events limit (Suc n) parts
      else [FilesLimit])"

text \<open>A sequence of calls of \<^verbatim>\<open>exit\<close>, each with its error and its flag.\<close>

definition exits :: "state \<Rightarrow> (error \<times> bool) list \<Rightarrow> state" where
  "exits s calls = foldl (\<lambda>s (e, p). exit s e p) s calls"

text \<open>The spec's words for an accepted \<^verbatim>\<open>operations\<close> value: an object or an array.\<close>

fun object_or_array :: "json \<Rightarrow> bool" where
  "object_or_array (JObj kvs) = True"
| "object_or_array (JArr xs) = True"
| "object_or_array JNull = False"
| "object_or_array (JBool b) = False"
| "object_or_array (JNum n) = False"
| "object_or_array (JStr s) = False"

section \<open>An example request\<close>

text \<open>
  The operations \<^verbatim>\<open>{"query": "q", "variables": {"file": null, "files": [null, null]}}\<close>
  and the map \<^verbatim>\<open>{"0": ["variables.file", "variables.files.1"], "1": ["variables.files.0"]}\<close>.
\<close>

definition ex_operations :: json where
  "ex_operations =
     JObj [(''query'', JStr ''q''),
           (''variables'', JObj [(''file'', JNull), (''files'', JArr [JNull, JNull])])]"

definition ex_map :: json where
  "ex_map =
     JObj [(''0'', JArr [JStr ''variables.file'', JStr ''variables.files.1'']),
           (''1'', JArr [JStr ''variables.files.0''])]"

definition ex_fields :: "event list" where
  "ex_fields =
     [Field ''operations'' (Some ex_operations) False, Field ''map'' (Some ex_map) False]"

text \<open>The state once both fields are handled.\<close>

definition ex_bound :: state where
  "ex_bound =
     init\<lparr> operations := Some (Ref 0), operationsPath := Some 0,
           map_tbl := Some [(''0'', 0), (''1'', 1)],
           roots := [TObj [(''query'', TStr ''q''),
                           (''variables'', TObj [(''file'', TUpload 0),
                                                 (''files'', TArr [TUpload 1, TUpload 0])])]],
           uploads := [new_Upload, new_Upload],
           outer := Resolved (Some (Ref 0)) \<rparr>"

definition ex_info :: file_info where
  "ex_info = \<lparr> info_filename = ''a.txt'', info_encoding = ''7bit'', info_mimeType = ''text/plain'' \<rparr>"

definition disconnected :: error where
  "disconnected = createError 499 Disconnected"

text \<open>The state once the \<^verbatim>\<open>operations\<close> field is handled.\<close>

definition ex_parsed :: state where
  "ex_parsed =
     init\<lparr> operations := Some (Ref 0), operationsPath := Some 0,
           roots := [TObj [(''query'', TStr ''q''),
                           (''variables'', TObj [(''file'', TNull),
                                                 (''files'', TArr [TNull, TNull])])]] \<rparr>"

text \<open>Both file parts of the example, and the state once they are handled.\<close>

definition ex_uploaded :: state where
  "ex_uploaded =
     ex_bound\<lparr> uploads := [\<lparr> promise = Resolved 0, file' = Some 0 \<rparr>,
                            \<lparr> promise = Resolved 1, file' = Some 1 \<rparr>],
               files := [new_file ex_info, new_file ex_info] \<rparr>"

definition ex_files :: "event list" where
  "ex_files = [File ''0'' ex_info, File ''1'' ex_info]"

text \<open>The state once the fields and the first file part are handled.\<close>

definition ex_one_file :: state where
  "ex_one_file =
     ex_bound\<lparr> uploads := [\<lparr> promise = Resolved 0, file' = Some 0 \<rparr>, new_Upload],
               files := [new_file ex_info] \<rparr>"

text \<open>
  Options with limits: files of at most five bytes, and at most two of them.
\<close>

definition ex_limits :: options where
  "ex_limits = \<lparr> maxFieldSize = 1000000, maxFileSize = 5, maxFiles = 2 \<rparr>"



section \<open>Conditions on a request\<close>

text \<open>
  A \<^verbatim>\<open>map\<close> field that is not truncated is handled while no exit has happened and
  there is no table, and the object it parses to has no key twice (as an object
  \<^verbatim>\<open>JSON.parse\<close> returns has none).
\<close>

fun first_bind :: "state \<Rightarrow> event \<Rightarrow> bool" where
  "first_bind s (Field fieldName value valueTruncated) =
     (fieldName = ''map'' \<and> \<not> valueTruncated \<longrightarrow>
        exitError s = None \<and> map_tbl s = None
        \<and> (\<forall>j. value = Some j \<longrightarrow> distinct (map fst (Object_entries j))))"
| "first_bind s (File fieldName i) = True"
| "first_bind s FilesLimit = True"
| "first_bind s Finish = True"
| "first_bind s (ParserError error) = True"
| "first_bind s ResponseClose = True"
| "first_bind s (RequestClose readableEnded) = True"
| "first_bind s (StreamLimit f) = True"
| "first_bind s (StreamError f error) = True"
| "first_bind s (CapacitorError f) = True"

text \<open>Every event of \<open>evs\<close>, handled from the state \<open>s\<close> on, meets that condition.\<close>

fun first_binds :: "options \<Rightarrow> state \<Rightarrow> event list \<Rightarrow> bool" where
  "first_binds opts s [] = True"
| "first_binds opts s (ev # evs) = (first_bind s ev \<and> first_binds opts (step opts s ev) evs)"

text \<open>
  The writes a map asks for, in the order the loops make them: each path of each entry
  with the address of the entry's upload, the first entry's upload at address \<open>a\<close>.
\<close>

fun path_of :: "json \<Rightarrow> string" where
  "path_of (JStr path) = path"
| "path_of JNull = []"
| "path_of (JBool b) = []"
| "path_of (JNum n) = []"
| "path_of (JArr xs) = []"
| "path_of (JObj kvs) = []"

fun paths_of :: "json \<Rightarrow> json list" where
  "paths_of (JArr paths) = paths"
| "paths_of JNull = []"
| "paths_of (JBool b) = []"
| "paths_of (JNum n) = []"
| "paths_of (JStr s) = []"
| "paths_of (JObj kvs) = []"

fun writes :: "nat \<Rightarrow> (string \<times> json) list \<Rightarrow> (string \<times> nat) list" where
  "writes a [] = []"
| "writes a ((fieldName, p) # rest) =
     map (\<lambda>q. (path_of q, a)) (paths_of p) @ writes (Suc a) rest"

text \<open>Writes made one after the other, as long as none raises.\<close>

fun set_all :: "tree \<Rightarrow> (string \<times> nat) list \<Rightarrow> tree option" where
  "set_all t [] = Some t"
| "set_all t ((path, a) # ws) =
     (case objectPath_set t path (TUpload a) of
        None \<Rightarrow> None
      | Some t' \<Rightarrow> set_all t' ws)"

text \<open>The write at position \<open>i\<close> is not undone by a later one: no later write has a
  path that is not empty and whose segments are the first segments, or all segments, of
  the path written at \<open>i\<close>.\<close>

definition survives :: "(string \<times> nat) list \<Rightarrow> nat \<Rightarrow> bool" where
  "survives ws i \<longleftrightarrow>
     (\<forall>j < length ws. i < j \<longrightarrow> fst (ws ! j) \<noteq> [] \<longrightarrow>
        \<not> prefix (split_dot (fst (ws ! j))) (split_dot (fst (ws ! i))))"

text \<open>
  The example request, disconnected after its first file; and the example request with a
  file part sent before its fields.
\<close>

definition ex_disconnect :: "event list" where
  "ex_disconnect = ex_fields @ [File ''0'' ex_info, RequestClose False]"

definition ex_misordered :: "event list" where
  "ex_misordered = File ''0'' ex_info # ex_fields @ [RequestClose False]"

text \<open>
  The map \<^verbatim>\<open>{"0": ["variables.file"], "1": ["variables.file"]}\<close>, whose two entries name
  the same path.
\<close>

definition ex_shared_map :: json where
  "ex_shared_map =
     JObj [(''0'', JArr [JStr ''variables.file'']), (''1'', JArr [JStr ''variables.file''])]"

section \<open>Invariants of the handlers\<close>

text \<open>
  What holds of the state whatever events have been handled: the addresses the variables
  and the table hold are allocated, \<^verbatim>\<open>operationsPath\<close> is bound to the object
  \<^verbatim>\<open>operations\<close> refers to, an upload whose \<^verbatim>\<open>file\<close> is set has a settled promise,
  and there is no upload and no file before there is a table.
\<close>

definition wf_always :: "state \<Rightarrow> bool" where
  "wf_always s \<longleftrightarrow>
     (\<forall>r. operationsPath s = Some r \<longrightarrow> r < length (roots s))
     \<and> (\<forall>r. operations s = Some (Ref r) \<longrightarrow> operationsPath s = Some r)
     \<and> (\<forall>tbl. map_tbl s = Some tbl \<longrightarrow> (\<forall>a \<in> snd ` set tbl. a < length (uploads s)))
     \<and> (\<forall>a < length (uploads s). \<forall>f. file' (uploads s ! a) = Some f \<longrightarrow>
           f < length (files s) \<and> promise (uploads s ! a) \<noteq> Pending)
     \<and> (map_tbl s = None \<longrightarrow> uploads s = [] \<and> files s = [])"

text \<open>
  What holds as long as \<^verbatim>\<open>exit\<close> has not run: \<^verbatim>\<open>operations\<close> is undefined or refers
  to a parsed object or array; the table exists only once \<^verbatim>\<open>operations\<close> is set; the
  overall result is pending until the table exists and resolved from then on; the finish
  handler has run only if the
  table exists; and until the finish handler runs, an upload whose \<^verbatim>\<open>file\<close> is unset is
  pending.
\<close>

definition wf_live :: "state \<Rightarrow> bool" where
  "wf_live s \<longleftrightarrow>
     (exitError s = None \<longrightarrow>
        (operations s = None \<or> (\<exists>r. operations s = Some (Ref r)))
        \<and> (map_tbl s \<noteq> None \<longrightarrow> operations s \<noteq> None)
        \<and> (map_tbl s = None \<longrightarrow> outer s = Pending)
        \<and> (map_tbl s \<noteq> None \<longrightarrow> (\<exists>v. outer s = Resolved v))
        \<and> (finish_ran s \<longrightarrow> map_tbl s \<noteq> None)
        \<and> (\<not> finish_ran s \<longrightarrow>
             (\<forall>a < length (uploads s). file' (uploads s ! a) = None \<longrightarrow>
                promise (uploads s ! a) = Pending)))"

definition wf_state :: "state \<Rightarrow> bool" where
  "wf_state s \<longleftrightarrow> wf_always s \<and> wf_live s"


text \<open>Every upload of the store is in the table; and no upload is pending.\<close>

definition covered :: "state \<Rightarrow> bool" where
  "covered s \<longleftrightarrow> (\<forall>a < length (uploads s). a \<in> snd ` set (the_map s))"

definition all_settled :: "state \<Rightarrow> bool" where
  "all_settled s \<longleftrightarrow> (\<forall>a < length (uploads s). promise (uploads s ! a) \<noteq> Pending)"

text \<open>
  What the handlers keep true of a request whose \<^verbatim>\<open>map\<close> field is bound first: every
  upload is in the table, and once \<^verbatim>\<open>exit\<close> or the finish handler has run none is
  pending.
\<close>

definition good :: "state \<Rightarrow> bool" where
  "good s \<longleftrightarrow> covered s \<and> (exitError s \<noteq> None \<or> finish_ran s \<longrightarrow> all_settled s)"

section \<open>Evaluating the example\<close>

lemma show_nat_digit: "n < 10 \<Longrightarrow> show_nat n = [digit n]"
  by (simp add: show_nat.simps)

lemmas eval_simps =
  run_def run_from_def init_def on_field_def operationsPath_set_def objectPath_set_def
  the_map_def array_index_def show_nat_digit digit_def upt_rec

lemma run_append: "run opts (xs @ ys) = run_from opts (run opts xs) ys"
  by (simp add: run_def run_from_def)

lemma run_ex_operations: "run opts [Field ''operations'' (Some ex_operations) False] = ex_parsed"
  by (simp add: eval_simps ex_operations_def ex_parsed_def)

lemma run_ex_fields_opts:
  assumes "2 \<le> maxFiles opts"
  shows "run opts ex_fields = ex_bound"
proof -
  have "\<not> maxFiles opts < enat (Suc (Suc 0))"
    using assms by (simp add: numeral_eq_enat numeral_2_eq_2 not_less)
  then show ?thesis
    by (simp add: eval_simps ex_fields_def ex_operations_def ex_map_def ex_bound_def)
qed

lemma run_ex_files: "run_from opts ex_bound ex_files = ex_uploaded"
  by (simp add: run_from_def ex_files_def ex_bound_def ex_uploaded_def init_def on_file_def
      new_Upload_def Upload_resolve_def)

lemma run_ex_fields: "run default_options ex_fields = ex_bound"
  by (simp add: run_ex_fields_opts default_options_def)

lemma run_ex_one_file: "run default_options (ex_fields @ [File ''0'' ex_info]) = ex_one_file"
  by (simp add: run_append run_ex_fields run_from_def ex_bound_def ex_one_file_def init_def
      on_file_def new_Upload_def Upload_resolve_def)


lemma run_ex_fields_limits: "run ex_limits ex_fields = ex_bound"
  by (rule run_ex_fields_opts) (simp add: ex_limits_def)





lemma file_events_ex:
  "file_events (maxFiles ex_limits) 0 [(''2'', ex_info), (''0'', ex_info), (''1'', ex_info)]
     = [File ''2'' ex_info, File ''0'' ex_info, FilesLimit]"
  "file_events (maxFiles ex_limits) 0 [(''0'', ex_info), (''1'', ex_info)]
     = [File ''0'' ex_info, File ''1'' ex_info]"
  by (simp_all add: ex_limits_def numeral_eq_enat zero_enat_def one_enat_def)

section \<open>Promises settle once\<close>

lemma reject_p_idem: "reject_p (reject_p p e) e = reject_p p e"
  by (cases p) simp_all

lemma reject_p_settled: "p \<noteq> Pending \<Longrightarrow> reject_p p e = p"
  by (cases p) simp_all

lemma resolve_p_settled: "p \<noteq> Pending \<Longrightarrow> resolve_p p v = p"
  by (cases p) simp_all

lemma length_reject_missing: "length (reject_missing e as us) = length us"
  by (induction as arbitrary: us) simp_all

lemma nth_reject_missing:
  "a < length us \<Longrightarrow>
   reject_missing e as us ! a =
     (if a \<in> set as \<and> file' (us ! a) = None then Upload_reject (us ! a) e else us ! a)"
proof (induction as arbitrary: us)
  case Nil
  then show ?case by simp
next
  case (Cons b bs)
  show ?case
  proof (cases "file' (us ! b) = None")
    case True
    let ?us = "us[b := Upload_reject (us ! b) e]"
    have len: "a < length ?us" using Cons.prems by simp
    have "reject_missing e (b # bs) us ! a = reject_missing e bs ?us ! a"
      using True by simp
    also have "\<dots> =
        (if a \<in> set bs \<and> file' (?us ! a) = None then Upload_reject (?us ! a) e else ?us ! a)"
      by (rule Cons.IH [OF len])
    finally show ?thesis
      using True Cons.prems
      by (cases "a = b") (auto simp: Upload_reject_def reject_p_idem)
  next
    case False
    then show ?thesis using Cons.IH [of us] Cons.prems by auto
  qed
qed

section \<open>exit runs once\<close>

lemma exit_after_exit: "exitError s \<noteq> None \<Longrightarrow> exit s e p = s"
  by (auto simp: exit_def)

lemma exitError_exit: "exitError (exit s e p) \<noteq> None"
  by (auto simp: exit_def Let_def split: option.splits)

lemma exits_after_exit: "exitError s \<noteq> None \<Longrightarrow> exits s calls = s"
  by (induction calls arbitrary: s) (auto simp: exits_def exit_def)

lemma exit_fields:
  "exitError s = None \<Longrightarrow>
     exitError (exit s e p) = Some e \<and>
     outer (exit s e p) = reject_p (outer s) e \<and>
     uploads (exit s e p) =
       (case map_tbl s of None \<Rightarrow> uploads s
        | Some tbl \<Rightarrow> reject_missing e (map snd tbl) (uploads s)) \<and>
     files (exit s e p) = files s \<and> roots (exit s e p) = roots s \<and>
     operations (exit s e p) = operations s \<and> map_tbl (exit s e p) = map_tbl s"
  by (auto simp: exit_def Let_def split: option.splits)

text \<open>
  C4, as amended. In a state where no exit has happened, a call of \<^verbatim>\<open>exit\<close> records its
  error; calls \<^verbatim>\<open>reject\<close> on the promise of the overall result, which rejects it when
  it is pending and leaves it resolved when the map was bound before; calls
  \<^verbatim>\<open>reject\<close> on the promise of every upload of the table whose \<^verbatim>\<open>file\<close> is unset,
  and leaves every other upload as it is; and whatever calls of \<^verbatim>\<open>exit\<close> follow, with
  whatever errors, the state stays the one the first call left.
\<close>

theorem exit_single_shot:
  "exitError s = None \<Longrightarrow>
     exitError (exit s e p) = Some e
     \<and> outer (exit s e p) = reject_p (outer s) e
     \<and> (outer s = Pending \<longrightarrow> outer (exit s e p) = Rejected e)
     \<and> (\<forall>v. outer s = Resolved v \<longrightarrow> outer (exit s e p) = Resolved v)
     \<and> length (uploads (exit s e p)) = length (uploads s)
     \<and> (\<forall>a < length (uploads s).
          file' (uploads (exit s e p) ! a) = file' (uploads s ! a)
          \<and> promise (uploads (exit s e p) ! a) =
              (if a \<in> set (map snd (the_map s)) \<and> file' (uploads s ! a) = None
               then reject_p (promise (uploads s ! a)) e
               else promise (uploads s ! a)))
     \<and> (\<forall>calls. exits s ((e, p) # calls) = exit s e p)"
proof (intro conjI allI impI)
  assume h: "exitError s = None"
  show "exitError (exit s e p) = Some e" using exit_fields [OF h] by simp
  show "outer (exit s e p) = reject_p (outer s) e" using exit_fields [OF h] by simp
  show "outer (exit s e p) = Rejected e" if "outer s = Pending"
    using exit_fields [OF h] that by simp
  show "outer (exit s e p) = Resolved v" if "outer s = Resolved v" for v
    using exit_fields [OF h] that by simp
  show "length (uploads (exit s e p)) = length (uploads s)"
    using exit_fields [OF h] by (simp add: length_reject_missing split: option.splits)
  show "file' (uploads (exit s e p) ! a) = file' (uploads s ! a)"
    if "a < length (uploads s)" for a
    using exit_fields [OF h] that
    by (auto simp: nth_reject_missing Upload_reject_def split: option.splits)
  show "promise (uploads (exit s e p) ! a) =
          (if a \<in> set (map snd (the_map s)) \<and> file' (uploads s ! a) = None
           then reject_p (promise (uploads s ! a)) e
           else promise (uploads s ! a))"
    if "a < length (uploads s)" for a
    using exit_fields [OF h] that
    by (auto simp: nth_reject_missing Upload_reject_def the_map_def split: option.splits)
  show "exits s ((e, p) # calls) = exit s e p" for calls
    using exits_after_exit [OF exitError_exit, of s e p calls] by (simp add: exits_def)
qed

text \<open>
  The example request, disconnected once both fields are handled: the two pending uploads
  are rejected with the error of the first call, the overall result stays resolved, and a
  second call changes nothing.
\<close>

theorem exit_single_shot_witness:
  "exitError (run default_options ex_fields) = None
   \<and> exitError (exit (run default_options ex_fields) disconnected False) = Some disconnected
   \<and> outer (exit (run default_options ex_fields) disconnected False) = Resolved (Some (Ref 0))
   \<and> promise (uploads (exit (run default_options ex_fields) disconnected False) ! 0)
       = Rejected disconnected
   \<and> promise (uploads (exit (run default_options ex_fields) disconnected False) ! 1)
       = Rejected disconnected
   \<and> exits (run default_options ex_fields)
        [(disconnected, False), (ForeignError ''Unexpected end of form'', True)]
       = exit (run default_options ex_fields) disconnected False"
proof -
  have h: "exitError (run default_options ex_fields) = None"
    by (simp add: run_ex_fields ex_bound_def init_def)
  show ?thesis
    using h exit_single_shot [OF h, of disconnected False]
    by (simp add: run_ex_fields ex_bound_def init_def the_map_def new_Upload_def)
qed

text \<open>
  C4 as stated fails: the first call of \<^verbatim>\<open>exit\<close> does not reject an overall result
  that the map field has already resolved.
\<close>

theorem exit_rejects_result_counterexample:
  "exitError (run default_options ex_fields) = None
   \<and> outer (run default_options ex_fields) = Resolved (Some (Ref 0))
   \<and> outer (exit (run default_options ex_fields) disconnected False)
       \<noteq> Rejected disconnected"
  by (simp add: run_ex_fields ex_bound_def init_def exit_def Let_def)

section \<open>What the binding loops change\<close>

lemma roots_self: "\<exists>rs. s = s\<lparr> roots := rs \<rparr> \<and> length rs = length (roots s)"
  by (rule exI [of _ "roots s"]) simp

lemma operationsPath_set_shape:
  "operationsPath_set s path v = Some s' \<Longrightarrow>
     \<exists>rs. s' = s\<lparr> roots := rs \<rparr> \<and> length rs = length (roots s)"
  by (auto simp: operationsPath_set_def split: option.splits)

lemma bind_paths_shape:
  "bind_paths s k a i ps = Inr s' \<or> bind_paths s k a i ps = Inl (e, s') \<Longrightarrow>
     \<exists>rs. s' = s\<lparr> roots := rs \<rparr> \<and> length rs = length (roots s)"
proof (induction s k a i ps rule: bind_paths.induct)
  case (1 s fieldName a index)
  then show ?case by (auto simp: roots_self)
next
  case (2 s fieldName a index p paths)
  show ?case
  proof (cases "\<exists>path s1. p = JStr path \<and> operationsPath_set s path (TUpload a) = Some s1")
    case True
    then obtain path s1 where p: "p = JStr path"
      and Some: "operationsPath_set s path (TUpload a) = Some s1" by blast
    from operationsPath_set_shape [OF Some] obtain rs1
      where s1: "s1 = s\<lparr> roots := rs1 \<rparr>" "length rs1 = length (roots s)" by blast
    from "2.prems" p Some
    have "bind_paths s1 fieldName a (Suc index) paths = Inr s'
          \<or> bind_paths s1 fieldName a (Suc index) paths = Inl (e, s')" by simp
    from "2.IH" [OF p Some this]
    obtain rs where "s' = s1\<lparr> roots := rs \<rparr>" "length rs = length (roots s1)" by blast
    with s1 show ?thesis by auto
  next
    case False
    with "2.prems" have "s' = s" by (auto split: json.splits option.splits)
    then show ?thesis by (simp add: roots_self)
  qed
qed

lemma snd_update_subset: "snd ` set (AList.update k v al) \<subseteq> insert v (snd ` set al)"
  by (induction al) auto

lemma bind_entries_shape:
  "bind_entries s es = Inr s' \<or> bind_entries s es = Inl (e, s') \<Longrightarrow>
   map_tbl s = Some tbl0 \<Longrightarrow>
     \<exists>rs m tbl. s' = s\<lparr> roots := rs, uploads := uploads s @ replicate m new_Upload,
                          map_tbl := Some tbl \<rparr>
        \<and> length rs = length (roots s)
        \<and> snd ` set tbl \<subseteq> snd ` set tbl0 \<union> {length (uploads s)..<length (uploads s) + m}"
proof (induction s es arbitrary: tbl0 rule: bind_entries.induct)
  case (1 s)
  then have "s' = s" by auto
  with 1 show ?case
    by (intro exI [of _ "roots s"] exI [of _ 0] exI [of _ tbl0]) simp
next
  case (2 s fieldName p rest)
  define n where "n = length (uploads s)"
  define tbl1 where "tbl1 = AList.update fieldName n tbl0"
  define s1 where "s1 = s\<lparr> uploads := uploads s @ [new_Upload], map_tbl := Some tbl1 \<rparr>"
  have s1': "s1 = s\<lparr> uploads := uploads s @ [new_Upload],
        map_tbl := Some (AList.update fieldName (length (uploads s)) (the_map s)) \<rparr>"
    using "2.prems"(2) by (simp add: s1_def tbl1_def the_map_def n_def)
  have t1: "snd ` set tbl1 \<subseteq> snd ` set tbl0 \<union> {n..<n + 1}"
    using snd_update_subset [of fieldName n tbl0] by (auto simp: tbl1_def)
  show ?case
  proof (cases "\<exists>paths s2. p = JArr paths \<and> bind_paths s1 fieldName n 0 paths = Inr s2")
    case True
    then obtain paths s2 where p: "p = JArr paths"
      and Inr: "bind_paths s1 fieldName n 0 paths = Inr s2" by blast
    from bind_paths_shape [of s1 fieldName n 0 paths s2] Inr
    obtain rs where s2: "s2 = s1\<lparr> roots := rs \<rparr>" "length rs = length (roots s1)" by auto
    have m2: "map_tbl s2 = Some tbl1" using s2 by (simp add: s1_def)
    have rest: "bind_entries s2 rest = Inr s' \<or> bind_entries s2 rest = Inl (e, s')"
      using "2.prems"(1) p Inr s1' by (simp add: n_def)
    from "2.IH" [OF p Inr [unfolded s1' n_def] rest m2]
    obtain rs2 m2 tbl2 where
      s': "s' = s2\<lparr> roots := rs2, uploads := uploads s2 @ replicate m2 new_Upload,
                      map_tbl := Some tbl2 \<rparr>"
      and l2: "length rs2 = length (roots s2)"
      and t2: "snd ` set tbl2
                 \<subseteq> snd ` set tbl1 \<union> {length (uploads s2)..<length (uploads s2) + m2}"
      by blast
    have len2: "length (uploads s2) = Suc n" using s2 by (simp add: s1_def n_def)
    have e1: "s' = s\<lparr> roots := rs2, uploads := uploads s @ replicate (Suc m2) new_Upload,
                         map_tbl := Some tbl2 \<rparr>"
      unfolding s' s2 s1_def by simp
    have e2: "length rs2 = length (roots s)" using l2 s2 by (simp add: s1_def)
    have e3: "snd ` set tbl2 \<subseteq> snd ` set tbl0 \<union> {n..<n + Suc m2}"
    proof
      fix a assume "a \<in> snd ` set tbl2"
      with t2 have "a \<in> snd ` set tbl1 \<or> a \<in> {Suc n..<Suc n + m2}"
        unfolding len2 by blast
      then show "a \<in> snd ` set tbl0 \<union> {n..<n + Suc m2}"
        using t1 by auto
    qed
    show ?thesis
      using e1 e2 e3 unfolding n_def by blast
  next
    case False
    show ?thesis
    proof (cases "\<exists>paths. p = JArr paths")
      case True
      then obtain paths where p: "p = JArr paths" by blast
      with False obtain e1 s2 where Inl: "bind_paths s1 fieldName n 0 paths = Inl (e1, s2)"
        by (cases "bind_paths s1 fieldName n 0 paths") auto
      from bind_paths_shape [of s1 fieldName n 0 paths s2 e1] Inl
      obtain rs where s2: "s2 = s1\<lparr> roots := rs \<rparr>" "length rs = length (roots s1)" by auto
      from "2.prems"(1) p Inl s1' have "s' = s2" by (simp add: n_def)
      with s2 t1 show ?thesis
        by (intro exI [of _ rs] exI [of _ 1] exI [of _ tbl1]) (simp add: s1_def n_def)
    next
      case False
      with "2.prems"(1) have "s' = s" by (auto split: json.splits)
      with "2.prems"(2) show ?thesis
        by (intro exI [of _ "roots s"] exI [of _ 0] exI [of _ tbl0]) simp
    qed
  qed
qed

section \<open>The invariants hold after every event\<close>

lemma wf_live_exited: "exitError s \<noteq> None \<Longrightarrow> wf_live s"
  by (auto simp: wf_live_def)

lemma reject_p_not_Pending: "p \<noteq> Pending \<Longrightarrow> reject_p p e \<noteq> Pending"
  by (cases p) simp_all

lemma wf_always_exit: "wf_always s \<Longrightarrow> wf_always (exit s e p)"
proof (cases "exitError s")
  case (Some d)
  assume "wf_always s" then show ?thesis using Some by (simp add: exit_after_exit)
next
  case None
  assume w: "wf_always s"
  note f = exit_fields [OF None, of e p]
  have other: "operationsPath (exit s e p) = operationsPath s"
    using None by (simp add: exit_def Let_def split: option.splits)
  have c1: "\<forall>r. operationsPath (exit s e p) = Some r \<longrightarrow> r < length (roots (exit s e p))"
    using w f other by (simp add: wf_always_def)
  have c2: "\<forall>r. operations (exit s e p) = Some (Ref r) \<longrightarrow> operationsPath (exit s e p) = Some r"
    using w f other by (simp add: wf_always_def)
  have c3: "\<forall>tbl. map_tbl (exit s e p) = Some tbl \<longrightarrow>
      (\<forall>a \<in> snd ` set tbl. a < length (uploads (exit s e p)))"
    using w f by (auto simp: wf_always_def length_reject_missing)
  have c4: "f' < length (files (exit s e p)) \<and> promise (uploads (exit s e p) ! a) \<noteq> Pending"
    if a: "a < length (uploads (exit s e p))"
      and ff: "file' (uploads (exit s e p) ! a) = Some f'" for a f'
  proof -
    have a': "a < length (uploads s)"
      using a f by (simp add: length_reject_missing split: option.splits)
    have "file' (uploads s ! a) = Some f'"
      using ff f a'
      by (auto simp: nth_reject_missing Upload_reject_def split: option.splits if_splits)
    with w a' have "f' < length (files s)" "promise (uploads s ! a) \<noteq> Pending"
      by (auto simp: wf_always_def)
    then show ?thesis
      using f a'
      by (auto simp: nth_reject_missing Upload_reject_def reject_p_not_Pending
          split: option.splits)
  qed
  have c5: "map_tbl (exit s e p) = None \<longrightarrow> uploads (exit s e p) = [] \<and> files (exit s e p) = []"
    using w f by (simp add: wf_always_def)
  show ?thesis
    unfolding wf_always_def using c1 c2 c3 c4 c5 by blast
qed

lemma wf_exit: "wf_always s \<Longrightarrow> wf_state (exit s e p)"
  unfolding wf_state_def
  by (cases "exitError s") (auto simp: wf_always_exit wf_live_exited exitError_exit exit_after_exit)

lemma wf_always_operations: "wf_always s \<Longrightarrow> wf_always (s\<lparr> operations := Some (Prim j) \<rparr>)"
  by (simp add: wf_always_def)

lemma wf_new_root:
  "wf_state s \<Longrightarrow>
   wf_state (s\<lparr> roots := roots s @ [t], operations := Some (Ref (length (roots s))),
          operationsPath := Some (length (roots s)) \<rparr>)"
  by (auto simp: wf_state_def wf_always_def wf_live_def)

lemma wf_always_bound:
  assumes w: "wf_always s" and l: "length rs = length (roots s)"
    and t: "snd ` set tbl \<subseteq> {length (uploads s)..<length (uploads s) + m}"
  shows "wf_always (s\<lparr> map_tbl := Some [], roots := rs,
                        uploads := uploads s @ replicate m new_Upload,
                        map_tbl := Some tbl \<rparr>)"
  using w l t by (auto simp: wf_always_def nth_append new_Upload_def)

lemma resolve_p_not_Pending: "resolve_p p v \<noteq> Pending"
  by (cases p) simp_all

lemma wf_on_field: "wf_state s \<Longrightarrow> wf_state (on_field opts s n v t)"
proof -
  assume w: "wf_state s"
  then have wa: "wf_always s" by (simp add: wf_state_def)
  have bind: "wf_state (case bind_entries (s\<lparr> map_tbl := Some [] \<rparr>) es of
                    Inl (e, s') \<Rightarrow> exit s' e False
                  | Inr s' \<Rightarrow> s'\<lparr> outer := resolve_p (outer s') (operations s') \<rparr>)"
    if nf: "\<not> is_falsy (operations s)" for es
  proof (cases "bind_entries (s\<lparr> map_tbl := Some [] \<rparr>) es")
    case (Inl x)
    obtain e s' where x: "x = (e, s')" by (cases x)
    from bind_entries_shape [of "s\<lparr> map_tbl := Some [] \<rparr>" es s' e "[]"] Inl x
    obtain rs m tbl where
      s': "s' = s\<lparr> map_tbl := Some [], roots := rs,
                    uploads := uploads s @ replicate m new_Upload, map_tbl := Some tbl \<rparr>"
      and l: "length rs = length (roots s)"
      and t: "snd ` set tbl \<subseteq> {length (uploads s)..<length (uploads s) + m}"
      by auto
    have "wf_always s'" unfolding s' by (rule wf_always_bound [OF wa l t])
    then show ?thesis using Inl x by (simp add: wf_exit)
  next
    case (Inr s')
    from bind_entries_shape [of "s\<lparr> map_tbl := Some [] \<rparr>" es s' undefined "[]"] Inr
    obtain rs m tbl where
      s': "s' = s\<lparr> map_tbl := Some [], roots := rs,
                    uploads := uploads s @ replicate m new_Upload, map_tbl := Some tbl \<rparr>"
      and l: "length rs = length (roots s)"
      and t: "snd ` set tbl \<subseteq> {length (uploads s)..<length (uploads s) + m}"
      by auto
    have a: "wf_always s'" unfolding s' by (rule wf_always_bound [OF wa l t])
    have a': "wf_always (s'\<lparr> outer := resolve_p (outer s') (operations s') \<rparr>)"
      using a by (simp add: wf_always_def)
    have "wf_live (s'\<lparr> outer := resolve_p (outer s') (operations s') \<rparr>)"
      using w nf unfolding s'
      by (auto simp: wf_state_def wf_live_def nth_append new_Upload_def)
    with a' show ?thesis using Inr by (simp add: wf_state_def)
  qed
  show ?thesis
    unfolding on_field_def
    using w wa bind
    by (auto simp: wf_exit wf_new_root wf_always_operations split: option.splits)
qed

lemma wf_always_ignored: "wf_always s \<Longrightarrow> wf_always (s\<lparr> ignored := x \<rparr>)"
  by (simp add: wf_always_def)

lemma wf_ignored: "wf_state s \<Longrightarrow> wf_state (s\<lparr> ignored := x \<rparr>)"
  by (simp add: wf_state_def wf_always_def wf_live_def)

lemma wf_resolved:
  assumes w: "wf_state s" and m: "map_tbl s = Some tbl"
  shows "wf_state (s\<lparr> files := files s @ [fu],
        uploads := (uploads s)[a := Upload_resolve (uploads s ! a) (length (files s))] \<rparr>)"
proof -
  let ?us = "(uploads s)[a := Upload_resolve (uploads s ! a) (length (files s))]"
  have f: "file' (?us ! b) = (if b = a then Some (length (files s)) else file' (uploads s ! b))"
    and p: "promise (?us ! b) =
      (if b = a then resolve_p (promise (uploads s ! a)) (length (files s))
       else promise (uploads s ! b))"
    if "b < length (uploads s)" for b
    using that by (auto simp: nth_list_update Upload_resolve_def)
  have 1: "wf_always (s\<lparr> files := files s @ [fu], uploads := ?us \<rparr>)"
    using w m unfolding wf_state_def wf_always_def
    by (auto simp: f p resolve_p_not_Pending less_Suc_eq split: if_splits)
  have 2: "wf_live (s\<lparr> files := files s @ [fu], uploads := ?us \<rparr>)"
    using w m unfolding wf_state_def wf_live_def
    by (auto simp: f p split: if_splits)
  show ?thesis using 1 2 by (simp add: wf_state_def)
qed

lemma wf_on_file: "wf_state s \<Longrightarrow> wf_state (on_file s n i)"
  unfolding on_file_def
  by (auto simp: wf_exit wf_always_ignored wf_ignored wf_resolved wf_state_def [of s]
      split: option.splits)

lemma length_release_files: "length (release_files as us fs) = length fs"
  by (induction as arbitrary: fs) (auto split: option.splits)

lemma wf_flag_always:
  "wf_always s \<Longrightarrow> wf_always (s\<lparr> filesLimit_ran := b \<rparr>)"
  "wf_always s \<Longrightarrow> wf_always (s\<lparr> finish_ran := b \<rparr>)"
  "wf_always s \<Longrightarrow> wf_always (s\<lparr> request_close_ran := b \<rparr>)"
  "wf_always s \<Longrightarrow> wf_always (s\<lparr> request_piped := b, request_resumed := c \<rparr>)"
  by (simp_all add: wf_always_def)

lemma wf_flag:
  "wf_state s \<Longrightarrow> wf_state (s\<lparr> filesLimit_ran := b \<rparr>)"
  "wf_state s \<Longrightarrow> wf_state (s\<lparr> request_close_ran := b \<rparr>)"
  by (simp_all add: wf_state_def wf_always_def wf_live_def)

lemma wf_finish:
  assumes w: "wf_state s"
  shows "wf_state (on_finish (s\<lparr> finish_ran := True \<rparr>))"
proof -
  from w have wa: "wf_always s" by (simp add: wf_state_def)
  let ?s1 = "s\<lparr> finish_ran := True, request_piped := False, request_resumed := True \<rparr>"
  have wa1: "wf_always ?s1" using wa by (simp add: wf_always_def)
  have sweep: "wf_state (?s1\<lparr> uploads := reject_missing e (map snd tbl) (uploads s) \<rparr>)"
    if m: "map_tbl s = Some tbl" and nf: "\<not> is_falsy (operations s)" for tbl e
  proof -
    let ?us = "reject_missing e (map snd tbl) (uploads s)"
    have n: "?us ! a = (if a \<in> snd ` set tbl \<and> file' (uploads s ! a) = None
                            then Upload_reject (uploads s ! a) e else uploads s ! a)"
      if "a < length (uploads s)" for a
      using that by (simp add: nth_reject_missing)
    have 1: "wf_always (?s1\<lparr> uploads := ?us \<rparr>)"
      using wa m unfolding wf_always_def
      by (auto simp: length_reject_missing n Upload_reject_def reject_p_not_Pending)
    have 2: "wf_live (?s1\<lparr> uploads := ?us \<rparr>)"
      using w m nf unfolding wf_state_def wf_live_def
      by (auto simp: length_reject_missing)
    show ?thesis using 1 2 by (simp add: wf_state_def)
  qed
  show ?thesis
    unfolding on_finish_def Let_def
    using wa1 sweep by (auto simp: wf_exit split: option.splits)
qed

lemma wf_response_close:
  assumes w: "wf_state s"
  shows "wf_state (on_response_close (s\<lparr> response_close_ran := True \<rparr>))"
  using w unfolding on_response_close_def Let_def wf_state_def wf_always_def wf_live_def
  by (auto simp: length_release_files split: option.splits)

lemma wf_request_close:
  "wf_state s \<Longrightarrow> wf_state (on_request_close (s\<lparr> request_close_ran := True \<rparr>) b)"
  unfolding on_request_close_def
  by (auto simp: wf_exit wf_flag wf_flag_always wf_state_def [of s])

lemma wf_filesLimit:
  "wf_state s \<Longrightarrow> wf_state (on_filesLimit opts (s\<lparr> filesLimit_ran := True \<rparr>))"
  unfolding on_filesLimit_def
  by (auto simp: wf_exit wf_flag_always wf_state_def [of s])

lemma wf_on_error: "wf_state s \<Longrightarrow> wf_state (on_error s e)"
  unfolding on_error_def by (auto simp: wf_exit wf_state_def [of s])

lemma wf_files_update:
  "wf_state s \<Longrightarrow> length fs = length (files s) \<Longrightarrow> wf_state (s\<lparr> files := fs \<rparr>)"
  by (auto simp: wf_state_def wf_always_def wf_live_def)

lemma wf_stream:
  "wf_state s \<Longrightarrow> wf_state (on_stream_limit opts s f)"
  "wf_state s \<Longrightarrow> wf_state (on_stream_error s f e)"
  "wf_state s \<Longrightarrow> wf_state (on_capacitor_error s f)"
  unfolding on_stream_limit_def on_stream_error_def on_capacitor_error_def
  by (simp_all add: wf_files_update)

lemma wf_step: "wf_state s \<Longrightarrow> wf_state (step opts s ev)"
  by (cases ev)
     (simp_all add: wf_on_field wf_on_file wf_finish wf_response_close wf_request_close
        wf_filesLimit wf_on_error wf_stream)

lemma wf_init: "wf_state init"
  by (simp add: wf_state_def wf_always_def wf_live_def init_def)

lemma run_from_snoc: "run_from opts s (evs @ [ev]) = step opts (run_from opts s evs) ev"
  by (simp add: run_from_def)

lemma wf_run_from: "wf_state s \<Longrightarrow> wf_state (run_from opts s evs)"
  by (induction evs rule: rev_induct) (simp_all add: run_from_snoc wf_step, simp add: run_from_def)

lemma wf_run: "wf_state (run opts evs)"
  by (simp add: run_def wf_run_from wf_init)

section \<open>What every reachable state satisfies\<close>

lemma live:
  assumes "exitError (run opts evs) = None"
  shows "operations (run opts evs) = None \<or> (\<exists>r. operations (run opts evs) = Some (Ref r))"
    and "map_tbl (run opts evs) \<noteq> None \<Longrightarrow> operations (run opts evs) \<noteq> None"
    and "map_tbl (run opts evs) = None \<Longrightarrow> outer (run opts evs) = Pending"
    and "map_tbl (run opts evs) \<noteq> None \<Longrightarrow> \<exists>v. outer (run opts evs) = Resolved v"
    and "finish_ran (run opts evs) \<Longrightarrow> map_tbl (run opts evs) \<noteq> None"
    and "\<not> finish_ran (run opts evs) \<Longrightarrow> a < length (uploads (run opts evs)) \<Longrightarrow>
           file' (uploads (run opts evs) ! a) = None \<Longrightarrow>
           promise (uploads (run opts evs) ! a) = Pending"
  using wf_run [of opts evs] assms unfolding wf_state_def wf_live_def by blast+

lemma always:
  shows "map_tbl (run opts evs) = Some tbl \<Longrightarrow> a \<in> snd ` set tbl \<Longrightarrow>
           a < length (uploads (run opts evs))"
    and "a < length (uploads (run opts evs)) \<Longrightarrow> file' (uploads (run opts evs) ! a) = Some f \<Longrightarrow>
           f < length (files (run opts evs)) \<and> promise (uploads (run opts evs) ! a) \<noteq> Pending"
    and "map_tbl (run opts evs) = None \<Longrightarrow> uploads (run opts evs) = [] \<and> files (run opts evs) = []"
    and "operationsPath (run opts evs) = Some r \<Longrightarrow> r < length (roots (run opts evs))"
    and "operations (run opts evs) = Some (Ref r) \<Longrightarrow> operationsPath (run opts evs) = Some r"
  using wf_run [of opts evs] unfolding wf_state_def wf_always_def by blast+

section \<open>Field order\<close>

text \<open>
  C3, as amended. After any events that have not led to an exit: a \<^verbatim>\<open>map\<close> field that
  is not truncated and arrives while \<^verbatim>\<open>operations\<close> is unset makes \<^verbatim>\<open>exit\<close> record
  the 400 error "Misordered multipart fields; map should follow operations" and rejects
  the overall result with it; a file part that arrives while there is no table has its
  stream ignored, and rejects the overall result with the 400 error "Misordered multipart
  fields; files should follow map".
\<close>

theorem misordered_fields:
  "exitError (run opts evs) = None \<Longrightarrow>
     (operations (run opts evs) = None \<longrightarrow>
        exitError (step opts (run opts evs) (Field ''map'' v False))
          = Some (createError 400 MisorderedMap)
        \<and> outer (step opts (run opts evs) (Field ''map'' v False))
          = Rejected (createError 400 MisorderedMap))
     \<and> (map_tbl (run opts evs) = None \<longrightarrow>
        exitError (step opts (run opts evs) (File n i))
          = Some (createError 400 MisorderedFiles)
        \<and> outer (step opts (run opts evs) (File n i))
          = Rejected (createError 400 MisorderedFiles)
        \<and> ignored (step opts (run opts evs) (File n i)) = ignored (run opts evs) @ [n])"
proof (intro conjI impI)
  assume h: "exitError (run opts evs) = None"
  {
    assume o: "operations (run opts evs) = None"
    then have m: "map_tbl (run opts evs) = None" using live(2) [OF h] by blast
    have p: "outer (run opts evs) = Pending" using live(3) [OF h m] .
    show "exitError (step opts (run opts evs) (Field ''map'' v False))
          = Some (createError 400 MisorderedMap)"
      using o exit_fields [OF h] by (simp add: on_field_def)
    show "outer (step opts (run opts evs) (Field ''map'' v False))
          = Rejected (createError 400 MisorderedMap)"
      using o p exit_fields [OF h] by (simp add: on_field_def)
  }
  {
    assume m: "map_tbl (run opts evs) = None"
    have p: "outer (run opts evs) = Pending" using live(3) [OF h m] .
    let ?s = "(run opts evs)\<lparr> ignored := ignored (run opts evs) @ [n] \<rparr>"
    have h': "exitError ?s = None" using h by simp
    have ig: "ignored (exit ?s e b) = ignored ?s" for e b
      by (simp add: exit_def Let_def split: option.splits)
    show "exitError (step opts (run opts evs) (File n i)) = Some (createError 400 MisorderedFiles)"
      using m exit_fields [OF h'] by (simp add: on_file_def)
    show "outer (step opts (run opts evs) (File n i)) = Rejected (createError 400 MisorderedFiles)"
      using m p exit_fields [OF h'] by (simp add: on_file_def)
    show "ignored (step opts (run opts evs) (File n i)) = ignored (run opts evs) @ [n]"
      using m ig by (simp add: on_file_def)
  }
qed

text \<open>The first event of a request is a \<^verbatim>\<open>map\<close> field, or a file part.\<close>

theorem misordered_fields_witness:
  "exitError (run default_options []) = None
   \<and> operations (run default_options []) = None
   \<and> map_tbl (run default_options []) = None
   \<and> outer (step default_options (run default_options []) (Field ''map'' (Some ex_map) False))
       = Rejected (createError 400 MisorderedMap)
   \<and> outer (step default_options (run default_options []) (File ''0'' ex_info))
       = Rejected (createError 400 MisorderedFiles)
   \<and> ignored (step default_options (run default_options []) (File ''0'' ex_info)) = [''0'']"
proof -
  have h: "exitError (run default_options []) = None"
    by (simp add: run_def run_from_def init_def)
  show ?thesis
    using h misordered_fields [OF h, of "Some ex_map" "''0''" ex_info]
    by (simp add: run_def run_from_def init_def)
qed

text \<open>
  C3 as stated fails: a \<^verbatim>\<open>map\<close> field that arrives first and is truncated is rejected
  with the 413 error of the field size limit, not with a 400 error.
\<close>

theorem misordered_map_counterexample:
  "operations (run default_options []) = None
   \<and> outer (step default_options (run default_options []) (Field ''map'' (Some ex_map) True))
       = Rejected (createError 413 (FieldSizeExceeded ''map'' 1000000))
   \<and> statusCode (createError 413 (FieldSizeExceeded ''map'' 1000000)) = Some 413"
  by (simp add: run_def run_from_def init_def on_field_def exit_def Let_def default_options_def)

section \<open>The operations field\<close>

text \<open>
  C7, as amended. After any events that have led neither to an exit nor to a table, an
  \<^verbatim>\<open>operations\<close> field that is not truncated is accepted (no exit) if and only if its
  value parses to an object or an array. A value that does not parse rejects the overall
  result with the 400 error "Invalid JSON in the operations multipart field"; one that
  parses to \<^verbatim>\<open>null\<close> or to a string, a number or a boolean rejects it with the 400 error
  "Invalid type for the operations multipart field"; an object or an array leaves it
  pending, and becomes the root \<^verbatim>\<open>operations\<close> and \<^verbatim>\<open>operationsPath\<close> refer to.
\<close>

theorem operations_accepted:
  "exitError (run opts evs) = None \<Longrightarrow> map_tbl (run opts evs) = None \<Longrightarrow>
     (exitError (step opts (run opts evs) (Field ''operations'' v False)) = None
        \<longleftrightarrow> (\<exists>j. v = Some j \<and> object_or_array j))
     \<and> (v = None \<longrightarrow>
          outer (step opts (run opts evs) (Field ''operations'' v False))
            = Rejected (createError 400 InvalidJsonOperations))
     \<and> (\<forall>j. v = Some j \<and> \<not> object_or_array j \<longrightarrow>
          outer (step opts (run opts evs) (Field ''operations'' v False))
            = Rejected (createError 400 InvalidTypeOperations))
     \<and> (\<forall>j. v = Some j \<and> object_or_array j \<longrightarrow>
          outer (step opts (run opts evs) (Field ''operations'' v False)) = Pending
          \<and> operations (step opts (run opts evs) (Field ''operations'' v False))
              = Some (Ref (length (roots (run opts evs))))
          \<and> operationsPath (step opts (run opts evs) (Field ''operations'' v False))
              = Some (length (roots (run opts evs)))
          \<and> roots (step opts (run opts evs) (Field ''operations'' v False))
              = roots (run opts evs) @ [of_json j])"
proof -
  assume h: "exitError (run opts evs) = None" and m: "map_tbl (run opts evs) = None"
  have p: "outer (run opts evs) = Pending" using live(3) [OF h m] .
  have h': "exitError ((run opts evs)\<lparr> operations := x \<rparr>) = None" for x using h by simp
  show ?thesis
  proof (cases v)
    case None
    then show ?thesis using p exit_fields [OF h] by (simp add: on_field_def)
  next
    case (Some j)
    show ?thesis
    proof (cases "object_or_array j")
      case True
      then have "typeof_object j" "truthy j" by (cases j; simp)+
      with True Some h p show ?thesis by (simp add: on_field_def)
    next
      case False
      then have "\<not> typeof_object j \<or> \<not> truthy j" by (cases j) simp_all
      with False Some p exit_fields [OF h'] show ?thesis by (simp add: on_field_def)
    qed
  qed
qed

text \<open>The first field of a request is \<^verbatim>\<open>operations\<close>, with five different values.\<close>

theorem operations_accepted_witness:
  "exitError (run default_options []) = None \<and> map_tbl (run default_options []) = None
   \<and> exitError (step default_options (run default_options [])
        (Field ''operations'' (Some ex_operations) False)) = None
   \<and> outer (step default_options (run default_options [])
        (Field ''operations'' None False)) = Rejected (createError 400 InvalidJsonOperations)
   \<and> outer (step default_options (run default_options [])
        (Field ''operations'' (Some JNull) False)) = Rejected (createError 400 InvalidTypeOperations)
   \<and> outer (step default_options (run default_options [])
        (Field ''operations'' (Some (JStr ''query'')) False))
       = Rejected (createError 400 InvalidTypeOperations)
   \<and> roots (step default_options (run default_options [])
        (Field ''operations'' (Some (JArr [])) False)) = [TArr []]"
proof -
  have h: "exitError (run default_options []) = None"
    and m: "map_tbl (run default_options []) = None"
    by (simp_all add: run_def run_from_def init_def)
  show ?thesis
    using h m
      operations_accepted [OF h m, of "Some ex_operations"]
      operations_accepted [OF h m, of None]
      operations_accepted [OF h m, of "Some JNull"]
      operations_accepted [OF h m, of "Some (JStr ''query'')"]
      operations_accepted [OF h m, of "Some (JArr [])"]
    by (simp add: ex_operations_def) (simp add: run_def run_from_def init_def)
qed

text \<open>
  C7 as stated fails: a truncated \<^verbatim>\<open>operations\<close> field is rejected with the 413 error
  of the field size limit, whether what arrived of it parses or not.
\<close>

theorem operations_truncated_counterexample:
  "exitError (run default_options []) = None
   \<and> outer (step default_options (run default_options []) (Field ''operations'' None True))
       = Rejected (createError 413 (FieldSizeExceeded ''operations'' 1000000))
   \<and> exitError (step default_options (run default_options [])
        (Field ''operations'' (Some ex_operations) True))
       = Some (createError 413 (FieldSizeExceeded ''operations'' 1000000))"
  by (simp add: run_def run_from_def init_def on_field_def exit_def Let_def default_options_def)

section \<open>The limit on the number of files\<close>

lemma exit_promise:
  "exitError s = None \<Longrightarrow> a < length (uploads s) \<Longrightarrow>
   promise (uploads (exit s e p) ! a) =
     (if a \<in> snd ` set (the_map s) \<and> file' (uploads s ! a) = None
      then reject_p (promise (uploads s ! a)) e else promise (uploads s ! a))"
  using exit_fields [of s e p]
  by (auto simp: nth_reject_missing Upload_reject_def the_map_def split: option.splits)

lemma exit_pending_rejected:
  assumes h: "exitError s = None" and w: "wf_state s"
    and a: "a \<in> snd ` set (the_map s)" and p: "promise (uploads s ! a) = Pending"
  shows "promise (uploads (exit s e b) ! a) = Rejected e"
proof -
  from a obtain tbl where m: "map_tbl s = Some tbl" and a': "a \<in> snd ` set tbl"
    by (cases "map_tbl s") (auto simp: the_map_def)
  from w m a' have l: "a < length (uploads s)" by (auto simp: wf_state_def wf_always_def)
  have "file' (uploads s ! a) = None"
  proof (cases "file' (uploads s ! a)")
    case (Some f)
    with w l p show ?thesis by (auto simp: wf_state_def wf_always_def)
  qed simp
  then show ?thesis using exit_promise [OF h l, of e b] a p by simp
qed

lemma wf_flag_more:
  "wf_state s \<Longrightarrow> wf_state (s\<lparr> filesLimit_ran := b \<rparr>)"
  "wf_state s \<Longrightarrow> wf_state (s\<lparr> request_close_ran := b \<rparr>)"
  by (simp_all add: wf_state_def wf_always_def wf_live_def)

text \<open>
  C8, as amended. After any events that have not led to an exit: a \<^verbatim>\<open>map\<close> field that
  is not truncated, follows \<^verbatim>\<open>operations\<close>, is the first to reach the table and parses
  to an object with more entries than \<^verbatim>\<open>maxFiles\<close> rejects the overall result with the
  413 error "max file uploads exceeded", with no table, no upload and no file in the state;
  and the first \<^verbatim>\<open>filesLimit\<close> event makes \<^verbatim>\<open>exit\<close> record the same 413 error, which
  rejects every pending upload of the table, rejects the overall result if there is no
  table yet, and leaves it resolved if the map field had resolved it.
\<close>

theorem max_files:
  "exitError (run opts evs) = None \<Longrightarrow>
     (operations (run opts evs) \<noteq> None \<and> map_tbl (run opts evs) = None
        \<and> enat (length es) > maxFiles opts \<longrightarrow>
          exitError (step opts (run opts evs) (Field ''map'' (Some (JObj es)) False))
            = Some (createError 413 (MaxFilesExceeded (maxFiles opts)))
          \<and> outer (step opts (run opts evs) (Field ''map'' (Some (JObj es)) False))
            = Rejected (createError 413 (MaxFilesExceeded (maxFiles opts)))
          \<and> map_tbl (step opts (run opts evs) (Field ''map'' (Some (JObj es)) False)) = None
          \<and> uploads (step opts (run opts evs) (Field ''map'' (Some (JObj es)) False)) = []
          \<and> files (step opts (run opts evs) (Field ''map'' (Some (JObj es)) False)) = [])
     \<and> (\<not> filesLimit_ran (run opts evs) \<longrightarrow>
          exitError (step opts (run opts evs) FilesLimit)
            = Some (createError 413 (MaxFilesExceeded (maxFiles opts)))
          \<and> (map_tbl (run opts evs) = None \<longrightarrow>
               outer (step opts (run opts evs) FilesLimit)
                 = Rejected (createError 413 (MaxFilesExceeded (maxFiles opts))))
          \<and> (\<forall>v. outer (run opts evs) = Resolved v \<longrightarrow>
               outer (step opts (run opts evs) FilesLimit) = Resolved v)
          \<and> (\<forall>a \<in> snd ` set (the_map (run opts evs)).
               promise (uploads (run opts evs) ! a) = Pending \<longrightarrow>
               promise (uploads (step opts (run opts evs) FilesLimit) ! a)
                 = Rejected (createError 413 (MaxFilesExceeded (maxFiles opts)))))"
proof (intro conjI impI)
  assume h: "exitError (run opts evs) = None"
  let ?s = "run opts evs"
  {
    assume a: "operations ?s \<noteq> None \<and> map_tbl ?s = None \<and> enat (length es) > maxFiles opts"
    then have m: "map_tbl ?s = None" by simp
    from a live(1) [OF h] have nf: "\<not> is_falsy (operations ?s)" by auto
    have p: "outer ?s = Pending" using live(3) [OF h m] .
    have st: "step opts ?s (Field ''map'' (Some (JObj es)) False)
        = exit ?s (createError 413 (MaxFilesExceeded (maxFiles opts))) False"
      using a nf by (simp add: on_field_def)
    show "exitError (step opts ?s (Field ''map'' (Some (JObj es)) False))
            = Some (createError 413 (MaxFilesExceeded (maxFiles opts)))"
      unfolding st using exit_fields [OF h] by simp
    show "outer (step opts ?s (Field ''map'' (Some (JObj es)) False))
            = Rejected (createError 413 (MaxFilesExceeded (maxFiles opts)))"
      unfolding st using exit_fields [OF h] p by simp
    show "map_tbl (step opts ?s (Field ''map'' (Some (JObj es)) False)) = None"
      unfolding st using exit_fields [OF h] m by simp
    show "uploads (step opts ?s (Field ''map'' (Some (JObj es)) False)) = []"
      unfolding st using exit_fields [OF h] m always(3) [OF m] by simp
    show "files (step opts ?s (Field ''map'' (Some (JObj es)) False)) = []"
      unfolding st using exit_fields [OF h] m always(3) [OF m] by simp
  }
  {
    assume n: "\<not> filesLimit_ran ?s"
    let ?t = "?s\<lparr> filesLimit_ran := True \<rparr>"
    let ?e = "createError 413 (MaxFilesExceeded (maxFiles opts))"
    have ht: "exitError ?t = None" using h by simp
    have wt: "wf_state ?t" using wf_run [of opts evs] by (rule wf_flag_more)
    have st: "step opts ?s FilesLimit = exit ?t ?e False"
      using n by (simp add: on_filesLimit_def)
    show "exitError (step opts ?s FilesLimit) = Some ?e"
      unfolding st using exit_fields [OF ht] by simp
    show "outer (step opts ?s FilesLimit) = Rejected ?e" if m: "map_tbl ?s = None"
      unfolding st using exit_fields [OF ht] live(3) [OF h m] by simp
    show "\<forall>v. outer ?s = Resolved v \<longrightarrow> outer (step opts ?s FilesLimit) = Resolved v"
      unfolding st using exit_fields [OF ht] by simp
    show "\<forall>a \<in> snd ` set (the_map ?s). promise (uploads ?s ! a) = Pending \<longrightarrow>
            promise (uploads (step opts ?s FilesLimit) ! a) = Rejected ?e"
      unfolding st using exit_pending_rejected [OF ht wt, of _ ?e False]
      by (simp add: the_map_def)
  }
qed

text \<open>
  With \<^verbatim>\<open>maxFiles\<close> 1, the example's operations followed by its map of two entries, or
  by a \<^verbatim>\<open>filesLimit\<close> event.
\<close>

theorem max_files_witness:
  "exitError (run (default_options\<lparr> maxFiles := 1 \<rparr>)
       [Field ''operations'' (Some ex_operations) False]) = None
   \<and> outer (step (default_options\<lparr> maxFiles := 1 \<rparr>)
        (run (default_options\<lparr> maxFiles := 1 \<rparr>) [Field ''operations'' (Some ex_operations) False])
        (Field ''map'' (Some ex_map) False))
       = Rejected (createError 413 (MaxFilesExceeded 1))
   \<and> uploads (step (default_options\<lparr> maxFiles := 1 \<rparr>)
        (run (default_options\<lparr> maxFiles := 1 \<rparr>) [Field ''operations'' (Some ex_operations) False])
        (Field ''map'' (Some ex_map) False)) = []
   \<and> outer (step (default_options\<lparr> maxFiles := 1 \<rparr>)
        (run (default_options\<lparr> maxFiles := 1 \<rparr>) [Field ''operations'' (Some ex_operations) False])
        FilesLimit)
       = Rejected (createError 413 (MaxFilesExceeded 1))"
proof -
  let ?o = "default_options\<lparr> maxFiles := 1 \<rparr>"
  have h: "exitError (run ?o [Field ''operations'' (Some ex_operations) False]) = None"
    by (simp add: run_ex_operations ex_parsed_def init_def)
  show ?thesis
    using h max_files [OF h, of "Object_entries ex_map"]
    by (simp add: run_ex_operations ex_parsed_def init_def ex_map_def one_enat_def)
qed

text \<open>
  C8 as stated fails: with \<^verbatim>\<open>maxFiles\<close> 2, the example request followed by its two files
  and a \<^verbatim>\<open>filesLimit\<close> event for a third leaves the overall result resolved.
\<close>

theorem files_limit_counterexample:
  "exitError (run (default_options\<lparr> maxFiles := 2 \<rparr>) (ex_fields @ ex_files)) = None
   \<and> exitError (run (default_options\<lparr> maxFiles := 2 \<rparr>) (ex_fields @ ex_files @ [FilesLimit]))
       = Some (createError 413 (MaxFilesExceeded 2))
   \<and> outer (run (default_options\<lparr> maxFiles := 2 \<rparr>) (ex_fields @ ex_files @ [FilesLimit]))
       = Resolved (Some (Ref 0))"
proof -
  let ?o = "default_options\<lparr> maxFiles := 2 \<rparr>"
  have a: "run ?o (ex_fields @ ex_files) = ex_uploaded"
    by (simp add: run_append run_ex_fields_opts run_ex_files)
  have b: "run ?o (ex_fields @ ex_files @ [FilesLimit]) = step ?o ex_uploaded FilesLimit"
    using a run_append [of ?o "ex_fields @ ex_files" "[FilesLimit]"]
    by (simp add: run_from_def)
  show ?thesis
    unfolding a b
    by (simp add: ex_uploaded_def ex_bound_def init_def on_filesLimit_def exit_def Let_def)
qed

section \<open>A request that disconnects\<close>

lemma exit_flag_fields:
  "exitError s = None \<Longrightarrow>
     exitError (exit (s\<lparr> request_close_ran := b \<rparr>) e p) = Some e \<and>
     outer (exit (s\<lparr> request_close_ran := b \<rparr>) e p) = reject_p (outer s) e"
  using exit_fields [of "s\<lparr> request_close_ran := b \<rparr>" e p] by simp

text \<open>
  C9, as amended. After any events that have not led to an exit, the first close event of
  a request whose body was not read to its end makes \<^verbatim>\<open>exit\<close> record the 499 error
  "Request disconnected during file upload stream parsing" (a status that is neither 400 nor
  413): every pending upload of the table is rejected with it; the overall result is
  rejected with it if there is no table yet, and stays resolved if the map field had
  resolved it. A close event of a request read to its end calls no exit.
\<close>

theorem request_disconnected:
  "exitError (run opts evs) = None \<Longrightarrow> \<not> request_close_ran (run opts evs) \<Longrightarrow>
     exitError (step opts (run opts evs) (RequestClose False))
       = Some (createError 499 Disconnected)
     \<and> statusCode (createError 499 Disconnected) = Some 499
     \<and> (map_tbl (run opts evs) = None \<longrightarrow>
          outer (step opts (run opts evs) (RequestClose False))
            = Rejected (createError 499 Disconnected))
     \<and> (\<forall>v. outer (run opts evs) = Resolved v \<longrightarrow>
          outer (step opts (run opts evs) (RequestClose False)) = Resolved v)
     \<and> (\<forall>a \<in> snd ` set (the_map (run opts evs)).
          promise (uploads (run opts evs) ! a) = Pending \<longrightarrow>
          promise (uploads (step opts (run opts evs) (RequestClose False)) ! a)
            = Rejected (createError 499 Disconnected))
     \<and> exitError (step opts (run opts evs) (RequestClose True)) = None"
proof (intro conjI impI)
  assume h: "exitError (run opts evs) = None" and n: "\<not> request_close_ran (run opts evs)"
  let ?s = "run opts evs"
  let ?t = "?s\<lparr> request_close_ran := True \<rparr>"
  let ?e = "createError 499 Disconnected"
  have ht: "exitError ?t = None" using h by simp
  have wt: "wf_state ?t" using wf_run [of opts evs] by (rule wf_flag_more)
  have st: "step opts ?s (RequestClose False) = exit ?t ?e False"
    using n by (simp add: on_request_close_def)
  show "exitError (step opts ?s (RequestClose False)) = Some ?e"
    unfolding st using exit_fields [OF ht] by simp
  show "statusCode ?e = Some 499" by simp
  show "outer (step opts ?s (RequestClose False)) = Rejected ?e" if m: "map_tbl ?s = None"
    unfolding st using exit_fields [OF ht] live(3) [OF h m] by simp
  show "\<forall>v. outer ?s = Resolved v \<longrightarrow> outer (step opts ?s (RequestClose False)) = Resolved v"
    unfolding st using exit_fields [OF ht] by simp
  show "\<forall>a \<in> snd ` set (the_map ?s). promise (uploads ?s ! a) = Pending \<longrightarrow>
          promise (uploads (step opts ?s (RequestClose False)) ! a) = Rejected ?e"
    unfolding st using exit_pending_rejected [OF ht wt, of _ ?e False]
    by (simp add: the_map_def)
  show "exitError (step opts ?s (RequestClose True)) = None"
    using h n by (simp add: on_request_close_def)
qed

text \<open>The example request, disconnected once both fields are handled.\<close>

theorem request_disconnected_witness:
  "exitError (run default_options ex_fields) = None
   \<and> \<not> request_close_ran (run default_options ex_fields)
   \<and> exitError (step default_options (run default_options ex_fields) (RequestClose False))
       = Some (createError 499 Disconnected)
   \<and> outer (step default_options (run default_options ex_fields) (RequestClose False))
       = Resolved (Some (Ref 0))
   \<and> promise (uploads (step default_options (run default_options ex_fields)
        (RequestClose False)) ! 0) = Rejected (createError 499 Disconnected)
   \<and> promise (uploads (step default_options (run default_options ex_fields)
        (RequestClose False)) ! 1) = Rejected (createError 499 Disconnected)"
proof -
  have h: "exitError (run default_options ex_fields) = None"
    and n: "\<not> request_close_ran (run default_options ex_fields)"
    by (simp_all add: run_ex_fields ex_bound_def init_def)
  show ?thesis
    using h n request_disconnected [OF h n]
    by (simp add: run_ex_fields ex_bound_def init_def the_map_def new_Upload_def)
qed

text \<open>
  C9 as stated fails: a disconnect after the map field leaves the overall result resolved.
\<close>

theorem disconnect_after_map_counterexample:
  "exitError (run default_options ex_fields) = None
   \<and> exitError (run default_options (ex_fields @ [RequestClose False]))
       = Some (createError 499 Disconnected)
   \<and> outer (run default_options (ex_fields @ [RequestClose False])) = Resolved (Some (Ref 0))"
  by (simp add: run_append run_ex_fields run_from_def ex_bound_def init_def
      on_request_close_def exit_def Let_def)

section \<open>The finish handler\<close>

text \<open>
  C10. After any events that have not led to an exit, when the finish handler runs: if
  \<^verbatim>\<open>operations\<close> is unset, the overall result is rejected with the 400 error "Missing
  multipart field operations"; otherwise, if there is no table, it is rejected with the 400
  error "Missing multipart field map"; otherwise no exit happens, the overall result stays
  resolved, the files and the operations are unchanged, every upload of the table whose
  \<^verbatim>\<open>file\<close> is unset is rejected with the 400 error "File missing in the request.", and
  every upload whose \<^verbatim>\<open>file\<close> is set is unchanged.
\<close>

theorem finish_outcome:
  "exitError (run opts evs) = None \<Longrightarrow> \<not> finish_ran (run opts evs) \<Longrightarrow>
     (operations (run opts evs) = None \<longrightarrow>
        exitError (step opts (run opts evs) Finish) = Some (createError 400 MissingOperations)
        \<and> outer (step opts (run opts evs) Finish) = Rejected (createError 400 MissingOperations))
     \<and> (operations (run opts evs) \<noteq> None \<and> map_tbl (run opts evs) = None \<longrightarrow>
        exitError (step opts (run opts evs) Finish) = Some (createError 400 MissingMap)
        \<and> outer (step opts (run opts evs) Finish) = Rejected (createError 400 MissingMap))
     \<and> (\<forall>tbl. map_tbl (run opts evs) = Some tbl \<longrightarrow>
        exitError (step opts (run opts evs) Finish) = None
        \<and> outer (step opts (run opts evs) Finish) = outer (run opts evs)
        \<and> (\<exists>v. outer (step opts (run opts evs) Finish) = Resolved v)
        \<and> files (step opts (run opts evs) Finish) = files (run opts evs)
        \<and> roots (step opts (run opts evs) Finish) = roots (run opts evs)
        \<and> length (uploads (step opts (run opts evs) Finish)) = length (uploads (run opts evs))
        \<and> (\<forall>a < length (uploads (run opts evs)).
             (a \<in> snd ` set tbl \<and> file' (uploads (run opts evs) ! a) = None \<longrightarrow>
                promise (uploads (step opts (run opts evs) Finish) ! a)
                  = Rejected (createError 400 FileMissing))
             \<and> (file' (uploads (run opts evs) ! a) \<noteq> None \<longrightarrow>
                uploads (step opts (run opts evs) Finish) ! a = uploads (run opts evs) ! a)))"
proof (intro conjI impI allI)
  assume h: "exitError (run opts evs) = None" and n: "\<not> finish_ran (run opts evs)"
  let ?s = "run opts evs"
  let ?t = "?s\<lparr> finish_ran := True, request_piped := False, request_resumed := True \<rparr>"
  have ht: "exitError ?t = None" using h by simp
  {
    assume o: "operations ?s = None"
    then have m: "map_tbl ?s = None" using live(2) [OF h] by blast
    have st: "step opts ?s Finish = exit ?t (createError 400 MissingOperations) False"
      using n o by (simp add: on_finish_def)
    show "exitError (step opts ?s Finish) = Some (createError 400 MissingOperations)"
      unfolding st using exit_fields [OF ht] by simp
    show "outer (step opts ?s Finish) = Rejected (createError 400 MissingOperations)"
      unfolding st using exit_fields [OF ht] live(3) [OF h m] by simp
  }
  {
    assume a: "operations ?s \<noteq> None \<and> map_tbl ?s = None"
    then have m: "map_tbl ?s = None" by simp
    from a live(1) [OF h] have nf: "\<not> is_falsy (operations ?s)" by auto
    have st: "step opts ?s Finish = exit ?t (createError 400 MissingMap) False"
      using n nf m by (simp add: on_finish_def)
    show "exitError (step opts ?s Finish) = Some (createError 400 MissingMap)"
      unfolding st using exit_fields [OF ht] by simp
    show "outer (step opts ?s Finish) = Rejected (createError 400 MissingMap)"
      unfolding st using exit_fields [OF ht] live(3) [OF h m] by simp
  }
  {
    fix tbl assume m: "map_tbl ?s = Some tbl"
    from m live(2) [OF h] live(1) [OF h] have nf: "\<not> is_falsy (operations ?s)" by auto
    have st: "step opts ?s Finish
        = ?t\<lparr> uploads := reject_missing (createError 400 FileMissing) (map snd tbl) (uploads ?s) \<rparr>"
      using n nf m by (simp add: on_finish_def)
    show "exitError (step opts ?s Finish) = None" unfolding st using h by simp
    show "outer (step opts ?s Finish) = outer ?s" unfolding st by simp
    show "\<exists>v. outer (step opts ?s Finish) = Resolved v"
      unfolding st using live(4) [OF h] m by simp
    show "files (step opts ?s Finish) = files ?s" unfolding st by simp
    show "roots (step opts ?s Finish) = roots ?s" unfolding st by simp
    show "length (uploads (step opts ?s Finish)) = length (uploads ?s)"
      unfolding st by (simp add: length_reject_missing)
    fix a assume l: "a < length (uploads ?s)"
    {
      assume "a \<in> snd ` set tbl \<and> file' (uploads ?s ! a) = None"
      then have i: "a \<in> snd ` set tbl" and f: "file' (uploads ?s ! a) = None" by simp_all
      have "promise (uploads ?s ! a) = Pending" using live(6) [OF h n l f] .
      then show "promise (uploads (step opts ?s Finish) ! a) = Rejected (createError 400 FileMissing)"
        unfolding st using l i f by (simp add: nth_reject_missing Upload_reject_def)
    }
    {
      assume "file' (uploads ?s ! a) \<noteq> None"
      then show "uploads (step opts ?s Finish) ! a = uploads ?s ! a"
        unfolding st using l by (auto simp: nth_reject_missing)
    }
  }
qed

text \<open>
  The form finishes with no field; after \<^verbatim>\<open>operations\<close> alone; and after the example's
  fields and the first of its two files.
\<close>

theorem finish_outcome_witness:
  "exitError (run default_options []) = None \<and> \<not> finish_ran (run default_options [])
   \<and> outer (step default_options (run default_options []) Finish)
       = Rejected (createError 400 MissingOperations)
   \<and> outer (step default_options
        (run default_options [Field ''operations'' (Some ex_operations) False]) Finish)
       = Rejected (createError 400 MissingMap)
   \<and> promise (uploads (step default_options
        (run default_options (ex_fields @ [File ''0'' ex_info])) Finish) ! 1)
       = Rejected (createError 400 FileMissing)
   \<and> promise (uploads (step default_options
        (run default_options (ex_fields @ [File ''0'' ex_info])) Finish) ! 0)
       = Resolved 0
   \<and> outer (step default_options
        (run default_options (ex_fields @ [File ''0'' ex_info])) Finish)
       = Resolved (Some (Ref 0))"
proof -
  have h0: "exitError (run default_options []) = None"
    and n0: "\<not> finish_ran (run default_options [])"
    by (simp_all add: run_def run_from_def init_def)
  have h1: "exitError (run default_options [Field ''operations'' (Some ex_operations) False]) = None"
    and n1: "\<not> finish_ran (run default_options [Field ''operations'' (Some ex_operations) False])"
    by (simp_all add: run_ex_operations ex_parsed_def init_def)
  have h2: "exitError (run default_options (ex_fields @ [File ''0'' ex_info])) = None"
    and n2: "\<not> finish_ran (run default_options (ex_fields @ [File ''0'' ex_info]))"
    by (simp_all add: run_ex_one_file ex_one_file_def ex_bound_def init_def)
  have a: "outer (step default_options (run default_options []) Finish)
       = Rejected (createError 400 MissingOperations)"
    using finish_outcome [OF h0 n0] by (simp add: run_def run_from_def init_def)
  have b: "outer (step default_options
        (run default_options [Field ''operations'' (Some ex_operations) False]) Finish)
       = Rejected (createError 400 MissingMap)"
    using finish_outcome [OF h1 n1] by (simp add: run_ex_operations ex_parsed_def init_def)
  have c: "promise (uploads (step default_options
        (run default_options (ex_fields @ [File ''0'' ex_info])) Finish) ! 1)
       = Rejected (createError 400 FileMissing)
   \<and> promise (uploads (step default_options
        (run default_options (ex_fields @ [File ''0'' ex_info])) Finish) ! 0)
       = Resolved 0
   \<and> outer (step default_options
        (run default_options (ex_fields @ [File ''0'' ex_info])) Finish)
       = Resolved (Some (Ref 0))"
    using finish_outcome [OF h2 n2]
    by (simp add: run_ex_one_file ex_one_file_def ex_bound_def init_def new_Upload_def
        All_less_Suc)
  show ?thesis using h0 n0 a b c by simp
qed

section \<open>Failures of one file\<close>

lemma createReadStream_cases:
  "createReadStream s f =
     (case fileError (files s ! f) of
        Some e \<Rightarrow> Inl e
      | None \<Rightarrow>
          (case (if released s then exitError s else None) of
             Some e \<Rightarrow> Inl e
           | None \<Rightarrow> capacitor_createReadStream (files s ! f) f))"
  by (simp add: createReadStream_def split: option.splits)



















section \<open>A file part the map does not name\<close>

lemma exit_ignored: "exit (s\<lparr> ignored := x \<rparr>) e p = (exit s e p)\<lparr> ignored := x \<rparr>"
  by (simp add: exit_def Let_def split: option.splits)

lemma operationsPath_set_ignored:
  "operationsPath_set (s\<lparr> ignored := x \<rparr>) path v
     = map_option (\<lambda>t. t\<lparr> ignored := x \<rparr>) (operationsPath_set s path v)"
  by (simp add: operationsPath_set_def split: option.splits)

lemma bind_paths_ignored:
  "bind_paths (s\<lparr> ignored := x \<rparr>) k a i ps
     = (case bind_paths s k a i ps of
          Inl (e, t) \<Rightarrow> Inl (e, t\<lparr> ignored := x \<rparr>)
        | Inr t \<Rightarrow> Inr (t\<lparr> ignored := x \<rparr>))"
proof (induction s k a i ps rule: bind_paths.induct)
  case (1 s fieldName a index)
  show ?case by simp
next
  case (2 s fieldName a index p paths)
  show ?case
  proof (cases p)
    case (JStr path)
    show ?thesis
    proof (cases "operationsPath_set s path (TUpload a)")
      case None
      then show ?thesis using JStr by (simp add: operationsPath_set_ignored)
    next
      case (Some s1)
      then show ?thesis using JStr "2.IH" [OF JStr Some]
        by (simp add: operationsPath_set_ignored)
    qed
  qed simp_all
qed

lemma the_map_ignored: "the_map (s\<lparr> ignored := x \<rparr>) = the_map s"
  by (simp add: the_map_def)

lemma bind_entries_ignored:
  "bind_entries (s\<lparr> ignored := x \<rparr>) es
     = (case bind_entries s es of
          Inl (e, t) \<Rightarrow> Inl (e, t\<lparr> ignored := x \<rparr>)
        | Inr t \<Rightarrow> Inr (t\<lparr> ignored := x \<rparr>))"
proof (induction s es rule: bind_entries.induct)
  case (1 s)
  show ?case by simp
next
  case (2 s fieldName p rest)
  show ?case
  proof (cases p)
    case (JArr paths)
    define s1 where "s1 = s\<lparr> uploads := uploads s @ [new_Upload],
        map_tbl := Some (AList.update fieldName (length (uploads s)) (the_map s)) \<rparr>"
    have sw: "s\<lparr> ignored := x, uploads := uploads s @ [new_Upload],
        map_tbl := Some (AList.update fieldName (length (uploads s)) (the_map s)) \<rparr>
        = s1\<lparr> ignored := x \<rparr>"
      by (simp add: s1_def)
    have l: "bind_entries (s\<lparr> ignored := x \<rparr>) ((fieldName, p) # rest)
        = (case bind_paths (s1\<lparr> ignored := x \<rparr>) fieldName (length (uploads s)) 0 paths of
             Inl y \<Rightarrow> Inl y | Inr s' \<Rightarrow> bind_entries s' rest)"
      using JArr by (simp add: the_map_ignored sw)
    have r: "bind_entries s ((fieldName, p) # rest)
        = (case bind_paths s1 fieldName (length (uploads s)) 0 paths of
             Inl y \<Rightarrow> Inl y | Inr s' \<Rightarrow> bind_entries s' rest)"
      using JArr by (simp add: s1_def)
    show ?thesis
    proof (cases "bind_paths s1 fieldName (length (uploads s)) 0 paths")
      case (Inl y)
      then show ?thesis unfolding l r bind_paths_ignored by (simp split: prod.splits)
    next
      case (Inr s2)
      then show ?thesis
        unfolding l r bind_paths_ignored
        using "2.IH" [OF JArr Inr [unfolded s1_def]] by simp
    qed
  qed simp_all
qed

lemma ignored_out:
  "s\<lparr> ignored := x, operations := a \<rparr> = s\<lparr> operations := a \<rparr>\<lparr> ignored := x \<rparr>"
  "s\<lparr> ignored := x, map_tbl := m \<rparr> = s\<lparr> map_tbl := m \<rparr>\<lparr> ignored := x \<rparr>"
  "s\<lparr> ignored := x, roots := r \<rparr> = s\<lparr> roots := r \<rparr>\<lparr> ignored := x \<rparr>"
  "s\<lparr> ignored := x, operationsPath := q \<rparr> = s\<lparr> operationsPath := q \<rparr>\<lparr> ignored := x \<rparr>"
  "s\<lparr> ignored := x, uploads := u \<rparr> = s\<lparr> uploads := u \<rparr>\<lparr> ignored := x \<rparr>"
  "s\<lparr> ignored := x, files := f \<rparr> = s\<lparr> files := f \<rparr>\<lparr> ignored := x \<rparr>"
  "s\<lparr> ignored := x, released := b \<rparr> = s\<lparr> released := b \<rparr>\<lparr> ignored := x \<rparr>"
  "s\<lparr> ignored := x, request_piped := b \<rparr> = s\<lparr> request_piped := b \<rparr>\<lparr> ignored := x \<rparr>"
  "s\<lparr> ignored := x, request_resumed := b \<rparr> = s\<lparr> request_resumed := b \<rparr>\<lparr> ignored := x \<rparr>"
  "s\<lparr> ignored := x, filesLimit_ran := b \<rparr> = s\<lparr> filesLimit_ran := b \<rparr>\<lparr> ignored := x \<rparr>"
  "s\<lparr> ignored := x, finish_ran := b \<rparr> = s\<lparr> finish_ran := b \<rparr>\<lparr> ignored := x \<rparr>"
  "s\<lparr> ignored := x, response_close_ran := b \<rparr> = s\<lparr> response_close_ran := b \<rparr>\<lparr> ignored := x \<rparr>"
  "s\<lparr> ignored := x, request_close_ran := b \<rparr> = s\<lparr> request_close_ran := b \<rparr>\<lparr> ignored := x \<rparr>"
  by simp_all

lemma on_field_ignored:
  "on_field opts (s\<lparr> ignored := x \<rparr>) n v t = (on_field opts s n v t)\<lparr> ignored := x \<rparr>"
proof -
  have b: "(case bind_entries (s\<lparr> map_tbl := Some [] \<rparr>\<lparr> ignored := x \<rparr>) es of
              Inl (e, s') \<Rightarrow> exit s' e False
            | Inr s' \<Rightarrow> s'\<lparr> outer := resolve_p (outer s') (operations s') \<rparr>)
          = (case bind_entries (s\<lparr> map_tbl := Some [] \<rparr>) es of
              Inl (e, s') \<Rightarrow> exit s' e False
            | Inr s' \<Rightarrow> s'\<lparr> outer := resolve_p (outer s') (operations s') \<rparr>)\<lparr> ignored := x \<rparr>"
    for es
    unfolding bind_entries_ignored
    by (cases "bind_entries (s\<lparr> map_tbl := Some [] \<rparr>) es")
       (auto simp: exit_ignored split: prod.splits)
  show ?thesis
    unfolding on_field_def
    by (simp add: ignored_out exit_ignored b split: option.splits)
qed

lemma step_ignored:
  "\<exists>y. step opts (s\<lparr> ignored := x \<rparr>) ev = (step opts s ev)\<lparr> ignored := y \<rparr>"
proof (cases ev)
  case (Field n v t)
  then show ?thesis by (auto simp: on_field_ignored)
next
  case (File n i)
  show ?thesis
  proof (cases "map_tbl s")
    case None
    have "step opts (s\<lparr> ignored := x \<rparr>) ev
        = (step opts s ev)\<lparr> ignored := x @ [n] \<rparr>"
      using File None by (simp add: on_file_def exit_ignored)
    then show ?thesis by blast
  next
    case (Some tbl)
    show ?thesis
    proof (cases "map_of tbl n")
      case None
      have "step opts (s\<lparr> ignored := x \<rparr>) ev = (step opts s ev)\<lparr> ignored := x @ [n] \<rparr>"
        using File Some None by (simp add: on_file_def)
      then show ?thesis by blast
    next
      case (Some a)
      have "step opts (s\<lparr> ignored := x \<rparr>) ev = (step opts s ev)\<lparr> ignored := x \<rparr>"
        using File \<open>map_tbl s = Some tbl\<close> Some by (simp add: on_file_def ignored_out)
      then show ?thesis by blast
    qed
  qed
next
  case FilesLimit
  have "step opts (s\<lparr> ignored := x \<rparr>) ev = (step opts s ev)\<lparr> ignored := x \<rparr>"
    using FilesLimit by (simp add: on_filesLimit_def ignored_out exit_ignored)
  then show ?thesis by blast
next
  case Finish
  have "step opts (s\<lparr> ignored := x \<rparr>) ev = (step opts s ev)\<lparr> ignored := x \<rparr>"
    using Finish
    by (simp add: on_finish_def Let_def ignored_out exit_ignored split: option.splits)
  then show ?thesis by blast
next
  case (ParserError e)
  then show ?thesis by (auto simp: on_error_def exit_ignored)
next
  case ResponseClose
  have "step opts (s\<lparr> ignored := x \<rparr>) ev = (step opts s ev)\<lparr> ignored := x \<rparr>"
    using ResponseClose
    by (simp add: on_response_close_def Let_def ignored_out split: option.splits)
  then show ?thesis by blast
next
  case (RequestClose b)
  have "step opts (s\<lparr> ignored := x \<rparr>) ev = (step opts s ev)\<lparr> ignored := x \<rparr>"
    using RequestClose by (simp add: on_request_close_def ignored_out exit_ignored)
  then show ?thesis by blast
next
  case (StreamLimit f)
  have "step opts (s\<lparr> ignored := x \<rparr>) ev = (step opts s ev)\<lparr> ignored := x \<rparr>"
    using StreamLimit by (simp add: on_stream_limit_def ignored_out)
  then show ?thesis by blast
next
  case (StreamError f e)
  have "step opts (s\<lparr> ignored := x \<rparr>) ev = (step opts s ev)\<lparr> ignored := x \<rparr>"
    using StreamError by (simp add: on_stream_error_def ignored_out)
  then show ?thesis by blast
next
  case (CapacitorError f)
  have "step opts (s\<lparr> ignored := x \<rparr>) ev = (step opts s ev)\<lparr> ignored := x \<rparr>"
    using CapacitorError by (simp add: on_capacitor_error_def ignored_out)
  then show ?thesis by blast
qed

lemma run_from_ignored:
  "(run_from opts (s\<lparr> ignored := x \<rparr>) evs)\<lparr> ignored := [] \<rparr>
     = (run_from opts s evs)\<lparr> ignored := [] \<rparr>"
proof (induction evs arbitrary: s x)
  case Nil
  show ?case by (simp add: run_from_def)
next
  case (Cons ev evs)
  obtain y where y: "step opts (s\<lparr> ignored := x \<rparr>) ev = (step opts s ev)\<lparr> ignored := y \<rparr>"
    using step_ignored by blast
  have "run_from opts (s\<lparr> ignored := x \<rparr>) (ev # evs)
      = run_from opts ((step opts s ev)\<lparr> ignored := y \<rparr>) evs"
    using y by (simp add: run_from_def)
  moreover have "run_from opts s (ev # evs) = run_from opts (step opts s ev) evs"
    by (simp add: run_from_def)
  ultimately show ?case using Cons.IH [where s = "step opts s ev" and x = y] by simp
qed

text \<open>
  C6, as amended. Once there is a table, a file part whose field name has no entry in it
  has its stream ignored and changes nothing else in the state; and whatever events
  follow, the state they lead to is, but for the record of ignored streams, the state the
  same events lead to without that file part.
\<close>

theorem extraneous_file:
  "map_tbl s = Some tbl \<Longrightarrow> map_of tbl n = None \<Longrightarrow>
     step opts s (File n i) = s\<lparr> ignored := ignored s @ [n] \<rparr>
     \<and> (\<forall>evs. (run_from opts (step opts s (File n i)) evs)\<lparr> ignored := [] \<rparr>
              = (run_from opts s evs)\<lparr> ignored := [] \<rparr>)"
proof -
  assume m: "map_tbl s = Some tbl" and n: "map_of tbl n = None"
  have st: "step opts s (File n i) = s\<lparr> ignored := ignored s @ [n] \<rparr>"
    using m n by (simp add: on_file_def)
  show ?thesis unfolding st by (simp add: run_from_ignored)
qed


text \<open>
  The example request with a third file part, named \<^verbatim>\<open>2\<close>, which its map does not
  name, followed by the first file and the end of the form.
\<close>

theorem extraneous_file_witness:
  "map_tbl (run default_options ex_fields) = Some [(''0'', 0), (''1'', 1)]
   \<and> map_of [(''0'', 0 :: nat), (''1'', 1)] ''2'' = None
   \<and> step default_options (run default_options ex_fields) (File ''2'' ex_info)
       = (run default_options ex_fields)\<lparr> ignored := [''2''] \<rparr>
   \<and> (run_from default_options
         (step default_options (run default_options ex_fields) (File ''2'' ex_info))
         [File ''0'' ex_info, Finish])\<lparr> ignored := [] \<rparr>
       = (run_from default_options (run default_options ex_fields)
         [File ''0'' ex_info, Finish])\<lparr> ignored := [] \<rparr>"
proof -
  have m: "map_tbl (run default_options ex_fields) = Some [(''0'', 0), (''1'', 1)]"
    by (simp add: run_ex_fields ex_bound_def init_def)
  have n: "map_of [(''0'', 0 :: nat), (''1'', 1)] ''2'' = None" by simp
  have ig: "ignored (run default_options ex_fields) = []"
    by (simp add: run_ex_fields ex_bound_def init_def)
  note t = extraneous_file [OF m n, of default_options ex_info]
  have st: "step default_options (run default_options ex_fields) (File ''2'' ex_info)
       = (run default_options ex_fields)\<lparr> ignored := [''2''] \<rparr>"
    using t ig by simp
  have fr: "(run_from default_options
         (step default_options (run default_options ex_fields) (File ''2'' ex_info))
         [File ''0'' ex_info, Finish])\<lparr> ignored := [] \<rparr>
       = (run_from default_options (run default_options ex_fields)
         [File ''0'' ex_info, Finish])\<lparr> ignored := [] \<rparr>"
    using t by blast
  show ?thesis using m n st fr by (intro conjI)
qed

text \<open>
  C6 as stated fails: take the example request with \<^verbatim>\<open>maxFiles\<close> 2 and a file part
  named \<^verbatim>\<open>2\<close>, which its map does not name, sent before its two files. The part counts
  towards the limit of the tokenizer, so the second of the two files gives a
  \<^verbatim>\<open>filesLimit\<close> event, not a \<^verbatim>\<open>file\<close> event, and the second upload is rejected
  with the 413 error; without the part it is resolved with its file.
\<close>

theorem extraneous_file_counted_counterexample:
  "map_tbl (run ex_limits ex_fields) = Some [(''0'', 0), (''1'', 1)]
   \<and> file_events (maxFiles ex_limits) 0 [(''2'', ex_info), (''0'', ex_info), (''1'', ex_info)]
       = [File ''2'' ex_info, File ''0'' ex_info, FilesLimit]
   \<and> file_events (maxFiles ex_limits) 0 [(''0'', ex_info), (''1'', ex_info)]
       = [File ''0'' ex_info, File ''1'' ex_info]
   \<and> promise (uploads (run ex_limits (ex_fields @ file_events (maxFiles ex_limits) 0
        [(''2'', ex_info), (''0'', ex_info), (''1'', ex_info)])) ! 1)
       = Rejected (createError 413 (MaxFilesExceeded 2))
   \<and> promise (uploads (run ex_limits (ex_fields @ file_events (maxFiles ex_limits) 0
        [(''0'', ex_info), (''1'', ex_info)])) ! 1)
       = Resolved 1"
  unfolding file_events_ex run_append run_ex_fields_limits
  by (simp add: run_from_def ex_bound_def init_def on_file_def on_filesLimit_def exit_def Let_def
      new_Upload_def Upload_resolve_def Upload_reject_def ex_limits_def)

section \<open>Every upload settles, once\<close>

lemma update_append: "k \<notin> fst ` set al \<Longrightarrow> AList.update k v al = al @ [(k, v)]"
  by (induction al) auto

lemma bind_entries_table:
  "bind_entries s es = Inr s' \<or> bind_entries s es = Inl (e, s') \<Longrightarrow>
   map_tbl s = Some tbl0 \<Longrightarrow> distinct (map fst es) \<Longrightarrow>
   fst ` set es \<inter> fst ` set tbl0 = {} \<Longrightarrow>
     \<exists>m \<le> length es.
        uploads s' = uploads s @ replicate m new_Upload
        \<and> map_tbl s' = Some (tbl0 @ zip (map fst (take m es))
                                       [length (uploads s)..<length (uploads s) + m])
        \<and> (bind_entries s es = Inr s' \<longrightarrow> m = length es)"
proof (induction s es arbitrary: tbl0 rule: bind_entries.induct)
  case (1 s)
  then have "s' = s" by auto
  with 1 show ?case by (intro exI [of _ 0]) simp
next
  case (2 s fieldName p rest)
  define n where "n = length (uploads s)"
  define tbl1 where "tbl1 = tbl0 @ [(fieldName, n)]"
  define s1 where "s1 = s\<lparr> uploads := uploads s @ [new_Upload], map_tbl := Some tbl1 \<rparr>"
  have fresh: "fieldName \<notin> fst ` set tbl0" using "2.prems"(4) by auto
  have s1': "s1 = s\<lparr> uploads := uploads s @ [new_Upload],
        map_tbl := Some (AList.update fieldName (length (uploads s)) (the_map s)) \<rparr>"
    using "2.prems"(2) fresh by (simp add: s1_def tbl1_def the_map_def n_def update_append)
  show ?case
  proof (cases "\<exists>paths s2. p = JArr paths \<and> bind_paths s1 fieldName n 0 paths = Inr s2")
    case True
    then obtain paths s2 where p: "p = JArr paths"
      and Inr: "bind_paths s1 fieldName n 0 paths = Inr s2" by blast
    from bind_paths_shape [of s1 fieldName n 0 paths s2] Inr
    obtain rs where s2: "s2 = s1\<lparr> roots := rs \<rparr>" by auto
    have m2: "map_tbl s2 = Some tbl1" using s2 by (simp add: s1_def)
    have u2: "uploads s2 = uploads s @ [new_Upload]" using s2 by (simp add: s1_def)
    have rest: "bind_entries s2 rest = Inr s' \<or> bind_entries s2 rest = Inl (e, s')"
      using "2.prems"(1) p Inr s1' by (simp add: n_def)
    have d: "distinct (map fst rest)" using "2.prems"(3) by simp
    have dj: "fst ` set rest \<inter> fst ` set tbl1 = {}"
      using "2.prems"(3,4) by (auto simp: tbl1_def)
    from "2.IH" [OF p Inr [unfolded s1' n_def] rest m2 d dj]
    obtain m where m: "m \<le> length rest"
      and u: "uploads s' = uploads s2 @ replicate m new_Upload"
      and t: "map_tbl s' = Some (tbl1 @ zip (map fst (take m rest))
                                       [length (uploads s2)..<length (uploads s2) + m])"
      and f: "bind_entries s2 rest = Inr s' \<longrightarrow> m = length rest"
      by blast
    have up: "[n..<n + Suc m] = n # [Suc n..<Suc n + m]"
      by (simp add: upt_rec)
    have e: "bind_entries s ((fieldName, p) # rest) = bind_entries s2 rest"
      using p Inr s1' by (simp add: n_def)
    have l2: "length (uploads s2) = Suc n" using u2 by (simp add: n_def)
    have c1: "Suc m \<le> length ((fieldName, p) # rest)" using m by simp
    have c2: "uploads s' = uploads s @ replicate (Suc m) new_Upload" using u u2 by simp
    have c3: "map_tbl s' = Some (tbl0 @ zip (map fst (take (Suc m) ((fieldName, p) # rest)))
                                       [n..<n + Suc m])"
      unfolding up using t unfolding l2 tbl1_def by simp
    have c4: "bind_entries s ((fieldName, p) # rest) = Inr s'
        \<longrightarrow> Suc m = length ((fieldName, p) # rest)"
      unfolding e using f by simp
    show ?thesis
      using c1 c2 c3 c4 unfolding n_def by blast
  next
    case False
    show ?thesis
    proof (cases "\<exists>paths. p = JArr paths")
      case True
      then obtain paths where p: "p = JArr paths" by blast
      with False obtain e1 s2 where Inl: "bind_paths s1 fieldName n 0 paths = Inl (e1, s2)"
        by (cases "bind_paths s1 fieldName n 0 paths") auto
      from bind_paths_shape [of s1 fieldName n 0 paths s2 e1] Inl
      obtain rs where s2: "s2 = s1\<lparr> roots := rs \<rparr>" by auto
      from "2.prems"(1) p Inl s1' have "s' = s2" and "bind_entries s ((fieldName, p) # rest) \<noteq> Inr s'"
        by (simp_all add: n_def)
      with s2 show ?thesis
        by (intro exI [of _ 1]) (simp add: s1_def tbl1_def n_def)
    next
      case False
      with "2.prems"(1) have "s' = s" and "bind_entries s ((fieldName, p) # rest) \<noteq> Inr s'"
        by (auto split: json.splits)
      with "2.prems"(2) show ?thesis
        by (intro exI [of _ 0]) simp
    qed
  qed
qed

lemma reject_p_never_Pending: "reject_p p e \<noteq> Pending"
  by (cases p) simp_all

lemma covered_exit: "covered s \<Longrightarrow> covered (exit s e p)"
  by (cases "exitError s")
     (auto simp: covered_def exit_def Let_def the_map_def length_reject_missing
        split: option.splits)

lemma settled_exit:
  assumes w: "wf_always s" and c: "covered s"
    and x: "exitError s \<noteq> None \<longrightarrow> all_settled s"
  shows "all_settled (exit s e p)"
proof (cases "exitError s")
  case (Some d)
  then show ?thesis using x by (simp add: exit_after_exit)
next
  case None
  show ?thesis
    unfolding all_settled_def
  proof (intro allI impI)
    fix a assume "a < length (uploads (exit s e p))"
    then have l: "a < length (uploads s)"
      using exit_fields [OF None, of e p] by (simp add: length_reject_missing split: option.splits)
    from c l have i: "a \<in> snd ` set (the_map s)" by (simp add: covered_def)
    show "promise (uploads (exit s e p) ! a) \<noteq> Pending"
    proof (cases "file' (uploads s ! a)")
      case None
      then show ?thesis using exit_promise [OF \<open>exitError s = None\<close> l, of e p] i
        by (simp add: reject_p_never_Pending)
    next
      case (Some f)
      with w l have "promise (uploads s ! a) \<noteq> Pending" by (auto simp: wf_always_def)
      then show ?thesis using exit_promise [OF \<open>exitError s = None\<close> l, of e p] Some by simp
    qed
  qed
qed


lemma good_exit:
  "wf_always s \<Longrightarrow> covered s \<Longrightarrow> exitError s \<noteq> None \<longrightarrow> all_settled s \<Longrightarrow>
   good (exit s e p)"
  by (simp add: good_def covered_exit settled_exit)

lemma good_exit': "wf_always s \<Longrightarrow> good s \<Longrightarrow> good (exit s e p)"
  by (rule good_exit) (auto simp: good_def)

lemma snd_zip_upt:
  "length ks = m \<Longrightarrow> snd ` set (zip ks [n..<n + m]) = {n..<n + m}"
proof -
  assume "length ks = m"
  then have "map snd (zip ks [n..<n + m]) = [n..<n + m]" by simp
  then have "set (map snd (zip ks [n..<n + m])) = set [n..<n + m]" by simp
  then show ?thesis by simp
qed

lemma good_bind:
  assumes w: "wf_state s" and h: "exitError s = None" and m: "map_tbl s = None"
    and d: "distinct (map fst es)"
  shows "good (case bind_entries (s\<lparr> map_tbl := Some [] \<rparr>) es of
                 Inl (e, s') \<Rightarrow> exit s' e False
               | Inr s' \<Rightarrow> s'\<lparr> outer := resolve_p (outer s') (operations s') \<rparr>)"
proof -
  let ?t = "s\<lparr> map_tbl := Some [] \<rparr>"
  from w have wa: "wf_always s" by (simp add: wf_state_def)
  from w m have u0: "uploads s = []" by (simp add: wf_state_def wf_always_def)
  from w h m have nf: "\<not> finish_ran s" by (auto simp: wf_state_def wf_live_def)
  have key: "wf_always s' \<and> covered s' \<and> exitError s' = None \<and> \<not> finish_ran s'"
    if r: "bind_entries ?t es = Inr s' \<or> bind_entries ?t es = Inl (e, s')" for s' e
  proof -
    from bind_entries_shape [OF r, of "[]"]
    obtain rs k tbl where
      s': "s' = s\<lparr> map_tbl := Some [], roots := rs,
                    uploads := uploads s @ replicate k new_Upload, map_tbl := Some tbl \<rparr>"
      and l: "length rs = length (roots s)"
      and t: "snd ` set tbl \<subseteq> {length (uploads s)..<length (uploads s) + k}"
      by auto
    have 1: "wf_always s'" unfolding s' by (rule wf_always_bound [OF wa l t])
    have 2: "exitError s' = None" "\<not> finish_ran s'" using h nf unfolding s' by simp_all
    from bind_entries_table [OF r, of "[]"] d
    obtain j where j: "j \<le> length es"
      and u: "uploads s' = replicate j new_Upload"
      and tb: "map_tbl s' = Some (zip (map fst (take j es)) [0..<0 + j])"
      using u0 by auto
    have "length (map fst (take j es)) = j" using j by simp
    from snd_zip_upt [OF this, of 0]
    have "snd ` set (the_map s') = {0..<j}" using tb by (simp add: the_map_def)
    then have 3: "covered s'" using u by (simp add: covered_def)
    show ?thesis using 1 2 3 by simp
  qed
  show ?thesis
  proof (cases "bind_entries ?t es")
    case (Inl x)
    obtain e s' where x: "x = (e, s')" by (cases x)
    from key [of s' e] Inl x have "wf_always s'" "covered s'" "exitError s' = None" by simp_all
    then show ?thesis using Inl x by (simp add: good_exit)
  next
    case (Inr s')
    from key [of s'] Inr have "covered s'" "exitError s' = None" "\<not> finish_ran s'" by simp_all
    then show ?thesis using Inr by (simp add: good_def covered_def the_map_def)
  qed
qed

lemma good_on_field:
  assumes w: "wf_state s" and g: "good s" and f: "first_bind s (Field n v t)"
  shows "good (on_field opts s n v t)"
proof -
  from w have wa: "wf_always s" by (simp add: wf_state_def)
  have ex: "good (exit s e p)" for e p using wa g by (rule good_exit')
  have ex': "good (exit (s\<lparr> operations := Some (Prim j) \<rparr>) e p)" for j e p
    by (rule good_exit' [OF wf_always_operations [OF wa]])
       (use g in \<open>simp add: good_def covered_def all_settled_def the_map_def\<close>)
  have nr: "good (s\<lparr> roots := r, operations := x, operationsPath := y \<rparr>)" for r x y
    using g by (simp add: good_def covered_def all_settled_def the_map_def)
  show ?thesis
  proof (cases "n = ''map'' \<and> \<not> t")
    case True
    with f have h: "exitError s = None" and m: "map_tbl s = None"
      and d: "\<forall>j. v = Some j \<longrightarrow> distinct (map fst (Object_entries j))" by simp_all
    show ?thesis
      unfolding on_field_def using True ex good_bind [OF w h m] d
      by (auto split: option.splits)
  next
    case False
    then show ?thesis
      unfolding on_field_def using ex ex' nr g
      by (auto split: option.splits)
  qed
qed


lemma good_flags:
  "good (s\<lparr> ignored := x \<rparr>) = good s"
  "good (s\<lparr> filesLimit_ran := b \<rparr>) = good s"
  "good (s\<lparr> request_close_ran := b \<rparr>) = good s"
  "good (s\<lparr> response_close_ran := b \<rparr>) = good s"
  "good (s\<lparr> released := b \<rparr>) = good s"
  "good (s\<lparr> files := fs \<rparr>) = good s"
  by (simp_all add: good_def covered_def all_settled_def the_map_def)

lemma wf_always_flags:
  "wf_always s \<Longrightarrow> wf_always (s\<lparr> ignored := x \<rparr>)"
  "wf_always s \<Longrightarrow> wf_always (s\<lparr> filesLimit_ran := b \<rparr>)"
  "wf_always s \<Longrightarrow> wf_always (s\<lparr> request_close_ran := b \<rparr>)"
  "wf_always s \<Longrightarrow>
     wf_always (s\<lparr> finish_ran := b, request_piped := c, request_resumed := d \<rparr>)"
  by (simp_all add: wf_always_def)

lemma good_on_file:
  assumes w: "wf_state s" and g: "good s"
  shows "good (on_file s n i)"
proof -
  from w have wa: "wf_always s" by (simp add: wf_state_def)
  have 1: "good (exit (s\<lparr> ignored := x \<rparr>) e p)" for x e p
    by (rule good_exit' [OF wf_always_flags(1) [OF wa]]) (simp add: good_flags g)
  have r: "promise ((uploads s)[a := Upload_resolve (uploads s ! a) f] ! b) \<noteq> Pending"
    if "b < length (uploads s)" "promise (uploads s ! b) \<noteq> Pending" for a b f
    using that by (cases "b = a") (simp_all add: Upload_resolve_def resolve_p_not_Pending)
  have 2: "good (s\<lparr> files := fs,
        uploads := (uploads s)[a := Upload_resolve (uploads s ! a) f] \<rparr>)" for fs a f
    using g r [of _ a f]
    by (simp add: good_def covered_def all_settled_def the_map_def)
  show ?thesis
    unfolding on_file_def using 1 2 g by (auto simp: good_flags split: option.splits)
qed

lemma good_finish:
  assumes w: "wf_state s" and g: "good s"
  shows "good (on_finish (s\<lparr> finish_ran := True \<rparr>))"
proof -
  from w have wa: "wf_always s" by (simp add: wf_state_def)
  let ?s1 = "s\<lparr> finish_ran := True, request_piped := False, request_resumed := True \<rparr>"
  have c1: "covered ?s1" using g by (simp add: good_def covered_def the_map_def)
  have x1: "exitError ?s1 \<noteq> None \<longrightarrow> all_settled ?s1"
    using g by (simp add: good_def all_settled_def)
  have 1: "good (exit ?s1 e p)" for e p
    by (rule good_exit [OF wf_always_flags(4) [OF wa] c1 x1])
  have 2: "good (?s1\<lparr> uploads := reject_missing e (map snd tbl) (uploads s) \<rparr>)"
    if m: "map_tbl s = Some tbl" for tbl e
  proof -
    have "promise (reject_missing e (map snd tbl) (uploads s) ! a) \<noteq> Pending"
      if l: "a < length (uploads s)" for a
    proof (cases "file' (uploads s ! a)")
      case None
      from g l m have "a \<in> snd ` set tbl" by (simp add: good_def covered_def the_map_def)
      with None l show ?thesis
        by (simp add: nth_reject_missing Upload_reject_def reject_p_never_Pending)
    next
      case (Some f)
      with wa l have "promise (uploads s ! a) \<noteq> Pending" by (auto simp: wf_always_def)
      with Some l show ?thesis by (simp add: nth_reject_missing)
    qed
    then show ?thesis
      using g m
      by (simp add: good_def covered_def all_settled_def the_map_def length_reject_missing)
  qed
  show ?thesis
    unfolding on_finish_def Let_def using 1 2 by (auto split: option.splits)
qed

lemma good_step:
  assumes w: "wf_state s" and g: "good s" and f: "first_bind s ev"
  shows "good (step opts s ev)"
proof -
  from w have wa: "wf_always s" by (simp add: wf_state_def)
  show ?thesis
  proof (cases ev)
    case (Field n v t)
    then show ?thesis using good_on_field [OF w g] f by simp
  next
    case (File n i)
    then show ?thesis using good_on_file [OF w g] by simp
  next
    case FilesLimit
    have "good (exit (s\<lparr> filesLimit_ran := True \<rparr>) e p)" for e p
      by (rule good_exit' [OF wf_always_flags(2) [OF wa]]) (simp add: good_flags g)
    then show ?thesis using FilesLimit g by (simp add: on_filesLimit_def)
  next
    case Finish
    then show ?thesis using good_finish [OF w g] g by simp
  next
    case (ParserError e)
    then show ?thesis using good_exit' [OF wa g] by (simp add: on_error_def)
  next
    case ResponseClose
    then show ?thesis using g
      by (simp add: on_response_close_def Let_def good_flags split: option.splits)
  next
    case (RequestClose b)
    have "good (exit (s\<lparr> request_close_ran := True \<rparr>) e p)" for e p
      by (rule good_exit' [OF wf_always_flags(3) [OF wa]]) (simp add: good_flags g)
    then show ?thesis using RequestClose g by (simp add: on_request_close_def good_flags)
  next
    case (StreamLimit f)
    then show ?thesis using g by (simp add: on_stream_limit_def good_flags)
  next
    case (StreamError f e)
    then show ?thesis using g by (simp add: on_stream_error_def good_flags)
  next
    case (CapacitorError f)
    then show ?thesis using g by (simp add: on_capacitor_error_def good_flags)
  qed
qed

lemma good_run_from:
  "wf_state s \<Longrightarrow> good s \<Longrightarrow> first_binds opts s evs \<Longrightarrow> good (run_from opts s evs)"
proof (induction evs arbitrary: s)
  case Nil
  then show ?case by (simp add: run_from_def)
next
  case (Cons ev evs)
  have "run_from opts s (ev # evs) = run_from opts (step opts s ev) evs"
    by (simp add: run_from_def)
  moreover have "good (run_from opts (step opts s ev) evs)"
    using Cons.prems by (intro Cons.IH wf_step good_step) simp_all
  ultimately show ?case by simp
qed

lemma good_init: "good init"
  by (simp add: good_def covered_def all_settled_def init_def)

lemma exit_promise_stable:
  assumes l: "a < length (uploads s)" and p: "promise (uploads s ! a) \<noteq> Pending"
  shows "a < length (uploads (exit s e b))
         \<and> promise (uploads (exit s e b) ! a) = promise (uploads s ! a)"
proof (cases "exitError s")
  case None
  show ?thesis
    using exit_promise [OF None l, of e b] exit_fields [OF None, of e b] l p
    by (simp add: reject_p_settled length_reject_missing split: option.splits)
next
  case (Some d)
  then show ?thesis using l by (simp add: exit_after_exit)
qed

lemma promise_stable:
  assumes l: "a < length (uploads s)" and p: "promise (uploads s ! a) \<noteq> Pending"
  shows "a < length (uploads (step opts s ev))
         \<and> promise (uploads (step opts s ev) ! a) = promise (uploads s ! a)"
proof -
  have ex: "a < length (uploads (exit t e b))
         \<and> promise (uploads (exit t e b) ! a) = promise (uploads s ! a)"
    if "uploads t = uploads s @ more" for t e b more
    using exit_promise_stable [of a t e b] l p that by (simp add: nth_append)
  show ?thesis
  proof (cases ev)
    case (Field n v t)
    have bind: "a < length (uploads
          (case bind_entries (s\<lparr> map_tbl := Some [] \<rparr>) es of
             Inl (e, s') \<Rightarrow> exit s' e False
           | Inr s' \<Rightarrow> s'\<lparr> outer := resolve_p (outer s') (operations s') \<rparr>))
        \<and> promise (uploads
          (case bind_entries (s\<lparr> map_tbl := Some [] \<rparr>) es of
             Inl (e, s') \<Rightarrow> exit s' e False
           | Inr s' \<Rightarrow> s'\<lparr> outer := resolve_p (outer s') (operations s') \<rparr>) ! a)
          = promise (uploads s ! a)" for es
    proof (cases "bind_entries (s\<lparr> map_tbl := Some [] \<rparr>) es")
      case (Inl x)
      obtain e s' where x: "x = (e, s')" by (cases x)
      from bind_entries_shape [of "s\<lparr> map_tbl := Some [] \<rparr>" es s' e "[]"] Inl x
      obtain k where "uploads s' = uploads s @ replicate k new_Upload" by auto
      from ex [OF this] show ?thesis using Inl x by simp
    next
      case (Inr s')
      from bind_entries_shape [of "s\<lparr> map_tbl := Some [] \<rparr>" es s' undefined "[]"] Inr
      obtain k where "uploads s' = uploads s @ replicate k new_Upload" by auto
      then show ?thesis using Inr l by (simp add: nth_append)
    qed
    show ?thesis
      using Field bind ex [of s "[]"] ex [of "s\<lparr> operations := x \<rparr>" "[]" for x] l
      by (auto simp: on_field_def split: option.splits)
  next
    case (File n i)
    have r: "promise ((uploads s)[c := Upload_resolve (uploads s ! c) f] ! a)
        = promise (uploads s ! a)" for c f
      using l p by (cases "a = c") (simp_all add: Upload_resolve_def resolve_p_settled)
    show ?thesis
      using File ex [of "s\<lparr> ignored := x \<rparr>" "[]" for x] l r
      by (auto simp: on_file_def split: option.splits)
  next
    case FilesLimit
    then show ?thesis using ex [of "s\<lparr> filesLimit_ran := True \<rparr>" "[]"] l
      by (simp add: on_filesLimit_def)
  next
    case Finish
    show ?thesis
      using Finish l p
        ex [of "s\<lparr> finish_ran := True, request_piped := False, request_resumed := True \<rparr>" "[]"]
      by (auto simp: on_finish_def Let_def length_reject_missing nth_reject_missing
          Upload_reject_def reject_p_settled split: option.splits)
  next
    case (ParserError e)
    then show ?thesis using ex [of s "[]"] by (simp add: on_error_def)
  next
    case ResponseClose
    then show ?thesis using l
      by (simp add: on_response_close_def Let_def split: option.splits)
  next
    case (RequestClose b)
    then show ?thesis using ex [of "s\<lparr> request_close_ran := True \<rparr>" "[]"] l
      by (simp add: on_request_close_def)
  next
    case (StreamLimit f)
    then show ?thesis using l by (simp add: on_stream_limit_def)
  next
    case (StreamError f e)
    then show ?thesis using l by (simp add: on_stream_error_def)
  next
    case (CapacitorError f)
    then show ?thesis using l by (simp add: on_capacitor_error_def)
  qed
qed

text \<open>
  C2, as amended. In any state, no event changes the promise of an upload that is already
  resolved or rejected, and no upload leaves the store: a promise settles at most once. And
  in every request in which each \<^verbatim>\<open>map\<close> field that is not truncated is handled while
  no exit has happened and there is no table yet, every upload is settled as soon as
  \<^verbatim>\<open>exit\<close> or the finish handler has run.
\<close>

theorem uploads_settle_once:
  "(\<forall>a < length (uploads s). promise (uploads s ! a) \<noteq> Pending \<longrightarrow>
      a < length (uploads (step opts s ev))
      \<and> promise (uploads (step opts s ev) ! a) = promise (uploads s ! a))
   \<and> (first_binds opts init evs \<longrightarrow>
        exitError (run opts evs) \<noteq> None \<or> finish_ran (run opts evs) \<longrightarrow>
        (\<forall>a < length (uploads (run opts evs)).
           promise (uploads (run opts evs) ! a) \<noteq> Pending))"
proof (intro conjI allI impI)
  fix a assume "a < length (uploads s)" "promise (uploads s ! a) \<noteq> Pending"
  from promise_stable [OF this]
  show "a < length (uploads (step opts s ev))"
    and "promise (uploads (step opts s ev) ! a) = promise (uploads s ! a)"
    by simp_all
next
  fix a
  assume f: "first_binds opts init evs"
    and e: "exitError (run opts evs) \<noteq> None \<or> finish_ran (run opts evs)"
    and a: "a < length (uploads (run opts evs))"
  have "good (run opts evs)"
    unfolding run_def by (rule good_run_from [OF wf_init good_init f])
  with e a show "promise (uploads (run opts evs) ! a) \<noteq> Pending"
    by (simp add: good_def all_settled_def)
qed

lemma run_ex_disconnect:
  "run default_options ex_disconnect
     = (exit (ex_one_file\<lparr> request_close_ran := True \<rparr>) disconnected False)"
proof -
  have n: "\<not> request_close_ran ex_one_file"
    by (simp add: ex_one_file_def ex_bound_def init_def)
  show ?thesis
    unfolding ex_disconnect_def
    using n
      run_append [of default_options "ex_fields @ [File ''0'' ex_info]" "[RequestClose False]"]
    by (simp add: run_ex_one_file run_from_def on_request_close_def disconnected_def)
qed

lemma first_binds_append:
  "first_binds opts s (xs @ ys)
     = (first_binds opts s xs \<and> first_binds opts (run_from opts s xs) ys)"
  by (induction xs arbitrary: s) (simp_all add: run_from_def)

lemma first_binds_ex_fields: "first_binds default_options init ex_fields"
  by (simp add: ex_fields_def on_field_def init_def ex_operations_def ex_map_def)

text \<open>
  The example request, disconnected after its first file: the first upload stays resolved,
  the second is rejected, and a late file part or the end of the form changes neither.
\<close>

theorem uploads_settle_once_witness:
  "first_binds default_options init ex_disconnect
   \<and> exitError (run default_options ex_disconnect) = Some disconnected
   \<and> length (uploads (run default_options ex_disconnect)) = 2
   \<and> promise (uploads (run default_options ex_disconnect) ! 0) = Resolved 0
   \<and> promise (uploads (run default_options ex_disconnect) ! 1) = Rejected disconnected
   \<and> promise (uploads (step default_options (run default_options ex_disconnect)
        (File ''1'' ex_info)) ! 1) = Rejected disconnected
   \<and> promise (uploads (step default_options (run default_options ex_disconnect)
        Finish) ! 0) = Resolved 0"
proof -
  have f: "first_binds default_options init ex_disconnect"
    unfolding ex_disconnect_def first_binds_append
    by (simp add: first_binds_ex_fields)
  have st: "run default_options ex_disconnect
      = ex_one_file\<lparr> request_close_ran := True, exitError := Some disconnected,
          uploads := [\<lparr> promise = Resolved 0, file' = Some 0 \<rparr>,
                      \<lparr> promise = Rejected disconnected, file' = None \<rparr>],
          parser := Destroyed (Some disconnected), request_piped := False,
          resume_scheduled := True \<rparr>"
    unfolding run_ex_disconnect
    by (simp add: exit_def Let_def ex_one_file_def ex_bound_def init_def new_Upload_def
        Upload_reject_def)
  have e: "exitError (run default_options ex_disconnect) = Some disconnected"
    and l: "length (uploads (run default_options ex_disconnect)) = 2"
    and p0: "promise (uploads (run default_options ex_disconnect) ! 0) = Resolved 0"
    and p1: "promise (uploads (run default_options ex_disconnect) ! 1) = Rejected disconnected"
    unfolding st by (simp_all add: ex_one_file_def ex_bound_def init_def)
  note t = uploads_settle_once [of "run default_options ex_disconnect" default_options]
  have s1: "promise (uploads (step default_options (run default_options ex_disconnect)
        (File ''1'' ex_info)) ! 1) = Rejected disconnected"
    using t [of "File ''1'' ex_info"] l p1 by simp
  have s0: "promise (uploads (step default_options (run default_options ex_disconnect)
        Finish) ! 0) = Resolved 0"
    using t [of Finish] l p0 by simp
  show ?thesis using f e l p0 p1 s1 s0 by (intro conjI)
qed

text \<open>
  C2 as stated fails: when a file part comes first, \<^verbatim>\<open>exit\<close> runs before the fields
  are handled; the map field then still creates its uploads, and neither the exit that ran
  nor the disconnect that follows settles them.
\<close>

theorem map_after_exit_counterexample:
  "exitError (run default_options ex_misordered) = Some (createError 400 MisorderedFiles)
   \<and> outer (run default_options ex_misordered) = Rejected (createError 400 MisorderedFiles)
   \<and> request_close_ran (run default_options ex_misordered)
   \<and> map_tbl (run default_options ex_misordered) = Some [(''0'', 0), (''1'', 1)]
   \<and> promise (uploads (run default_options ex_misordered) ! 0) = Pending
   \<and> promise (uploads (run default_options ex_misordered) ! 1) = Pending"
  by (simp add: ex_misordered_def ex_fields_def ex_operations_def ex_map_def eval_simps
      on_file_def on_request_close_def exit_def Let_def new_Upload_def default_options_def)

section \<open>Binding the map\<close>

lemma array_index_Some:
  "array_index k xs = Some i \<Longrightarrow> i < length xs \<and> show_nat i = k"
  by (auto simp: array_index_def find_Some_iff)

lemma array_index_update: "array_index k (xs[i := v]) = array_index k xs"
  by (simp add: array_index_def)

lemma map_of_update: "map_of (AList.update k v al) k' = (if k' = k then Some v else map_of al k')"
  by (simp add: AList.update_conv')

lemma tree_get_set_same: "tree_set t p v = Some t' \<Longrightarrow> tree_get t' p = Some v"
proof (induction t p v arbitrary: t' rule: tree_set.induct)
  case (1 kvs k v)
  then show ?case by (auto simp: map_of_update)
next
  case (2 kvs k k' ks v)
  then show ?case by (auto simp: map_of_update split: option.splits)
next
  case (3 xs k v)
  then obtain i where i: "array_index k xs = Some i" and t': "t' = TArr (xs[i := v])"
    by (auto split: option.splits)
  from array_index_Some [OF i] show ?case using i t' by (simp add: array_index_update)
next
  case (4 xs k k' ks v)
  from "4.prems" obtain i c' where i: "array_index k xs = Some i"
    and c': "tree_set (xs ! i) (k' # ks) v = Some c'"
    and t': "t' = TArr (xs[i := c'])" by (auto split: option.splits)
  from "4.IH" [OF i c'] array_index_Some [OF i] show ?case
    using i t' by (simp add: array_index_update)
qed simp_all

lemma tree_get_set_other:
  "tree_set t q v = Some t' \<Longrightarrow> tree_get t p = Some (TUpload u) \<Longrightarrow> \<not> prefix q p \<Longrightarrow>
   tree_get t' p = Some (TUpload u)"
proof (induction t q v arbitrary: t' p rule: tree_set.induct)
  case (1 kvs k v)
  then show ?case
    by (cases p) (auto simp: map_of_update split: option.splits)
next
  case (2 kvs k k' ks v)
  show ?case
  proof (cases p)
    case Nil
    with 2 show ?thesis by simp
  next
    case (Cons h ps)
    from "2.prems"(1) obtain c c' where c: "map_of kvs k = Some c"
      and c': "tree_set c (k' # ks) v = Some c'"
      and t': "t' = TObj (AList.update k c' kvs)"
      by (auto split: option.splits)
    show ?thesis
    proof (cases "h = k")
      case True
      with "2.prems"(2) Cons c have g: "tree_get c ps = Some (TUpload u)" by simp
      from "2.prems"(3) Cons True have np: "\<not> prefix (k' # ks) ps" by simp
      from "2.IH" [OF c c' g np] show ?thesis using Cons True t' by (simp add: map_of_update)
    next
      case False
      with "2.prems"(2) Cons t' show ?thesis by (simp add: map_of_update)
    qed
  qed
next
  case (3 xs k v)
  show ?case
  proof (cases p)
    case Nil
    with 3 show ?thesis by simp
  next
    case (Cons h ps)
    from "3.prems"(1) obtain i where i: "array_index k xs = Some i"
      and t': "t' = TArr (xs[i := v])" by (auto split: option.splits)
    from "3.prems"(2) Cons obtain i' where i': "array_index h xs = Some i'"
      and g: "tree_get (xs ! i') ps = Some (TUpload u)" by (auto split: option.splits)
    from "3.prems"(3) Cons have "h \<noteq> k" by auto
    with array_index_Some [OF i] array_index_Some [OF i'] have "i' \<noteq> i" by auto
    with g i' t' Cons show ?thesis by (simp add: array_index_update)
  qed
next
  case (4 xs k k' ks v)
  show ?case
  proof (cases p)
    case Nil
    with 4 show ?thesis by simp
  next
    case (Cons h ps)
    from "4.prems"(1) obtain i c' where i: "array_index k xs = Some i"
      and c': "tree_set (xs ! i) (k' # ks) v = Some c'"
      and t': "t' = TArr (xs[i := c'])" by (auto split: option.splits)
    from "4.prems"(2) Cons obtain i' where i': "array_index h xs = Some i'"
      and g: "tree_get (xs ! i') ps = Some (TUpload u)" by (auto split: option.splits)
    show ?thesis
    proof (cases "h = k")
      case True
      with i i' have ii: "i' = i" by simp
      from "4.prems"(3) Cons True have np: "\<not> prefix (k' # ks) ps" by simp
      from "4.IH" [OF i c' g [unfolded ii] np] show ?thesis
        using Cons True t' i array_index_Some [OF i] by (simp add: array_index_update)
    next
      case False
      with array_index_Some [OF i] array_index_Some [OF i'] have "i' \<noteq> i" by auto
      with g i' t' Cons show ?thesis by (simp add: array_index_update)
    qed
  qed
qed simp_all


lemma objectPath_get_set_same:
  "objectPath_set t path v = Some t' \<Longrightarrow> path \<noteq> [] \<Longrightarrow> objectPath_get t' path = Some v"
  by (simp add: objectPath_set_def objectPath_get_def tree_get_set_same)

lemma objectPath_get_set_other:
  "objectPath_set t q v = Some t' \<Longrightarrow> objectPath_get t p = Some (TUpload u) \<Longrightarrow>
   q \<noteq> [] \<longrightarrow> \<not> prefix (split_dot q) (split_dot p) \<Longrightarrow>
   objectPath_get t' p = Some (TUpload u)"
  by (cases "q = []")
     (auto simp: objectPath_set_def objectPath_get_def dest: tree_get_set_other)

lemma set_all_keeps:
  "set_all t ws = Some t' \<Longrightarrow> objectPath_get t p = Some (TUpload u) \<Longrightarrow>
   \<forall>j < length ws. fst (ws ! j) \<noteq> [] \<longrightarrow> \<not> prefix (split_dot (fst (ws ! j))) (split_dot p) \<Longrightarrow>
   objectPath_get t' p = Some (TUpload u)"
proof (induction ws arbitrary: t)
  case Nil
  then show ?case by simp
next
  case (Cons w ws)
  obtain q a where w: "w = (q, a)" by (cases w)
  from Cons.prems(1) w obtain t1 where t1: "objectPath_set t q (TUpload a) = Some t1"
    and r: "set_all t1 ws = Some t'" by (auto split: option.splits)
  from Cons.prems(3) [rule_format, of 0] w
  have "q \<noteq> [] \<longrightarrow> \<not> prefix (split_dot q) (split_dot p)" by simp
  from objectPath_get_set_other [OF t1 Cons.prems(2) this]
  have g: "objectPath_get t1 p = Some (TUpload u)" .
  have "\<forall>j < length ws. fst (ws ! j) \<noteq> [] \<longrightarrow> \<not> prefix (split_dot (fst (ws ! j))) (split_dot p)"
    using Cons.prems(3) by (auto dest: spec [of _ "Suc j" for j])
  from Cons.IH [OF r g this] show ?case .
qed

lemma survives_Cons: "survives (w # ws) (Suc i) = survives ws i"
  unfolding survives_def
proof
  assume a: "\<forall>j<length (w # ws). Suc i < j \<longrightarrow> fst ((w # ws) ! j) \<noteq> [] \<longrightarrow>
      \<not> prefix (split_dot (fst ((w # ws) ! j))) (split_dot (fst ((w # ws) ! Suc i)))"
  show "\<forall>j<length ws. i < j \<longrightarrow> fst (ws ! j) \<noteq> [] \<longrightarrow>
      \<not> prefix (split_dot (fst (ws ! j))) (split_dot (fst (ws ! i)))"
  proof (intro allI impI)
    fix j assume "j < length ws" "i < j" "fst (ws ! j) \<noteq> []"
    with a [rule_format, of "Suc j"]
    show "\<not> prefix (split_dot (fst (ws ! j))) (split_dot (fst (ws ! i)))" by simp
  qed
next
  assume a: "\<forall>j<length ws. i < j \<longrightarrow> fst (ws ! j) \<noteq> [] \<longrightarrow>
      \<not> prefix (split_dot (fst (ws ! j))) (split_dot (fst (ws ! i)))"
  show "\<forall>j<length (w # ws). Suc i < j \<longrightarrow> fst ((w # ws) ! j) \<noteq> [] \<longrightarrow>
      \<not> prefix (split_dot (fst ((w # ws) ! j))) (split_dot (fst ((w # ws) ! Suc i)))"
  proof (intro allI impI)
    fix j assume j: "j < length (w # ws)" "Suc i < j" "fst ((w # ws) ! j) \<noteq> []"
    then obtain j' where "j = Suc j'" by (cases j) auto
    with j a [rule_format, of j']
    show "\<not> prefix (split_dot (fst ((w # ws) ! j))) (split_dot (fst ((w # ws) ! Suc i)))"
      by simp
  qed
qed

lemma set_all_get:
  "set_all t ws = Some t' \<Longrightarrow> i < length ws \<Longrightarrow> fst (ws ! i) \<noteq> [] \<Longrightarrow> survives ws i \<Longrightarrow>
   objectPath_get t' (fst (ws ! i)) = Some (TUpload (snd (ws ! i)))"
proof (induction ws arbitrary: t i)
  case Nil
  then show ?case by simp
next
  case (Cons w ws)
  obtain q a where w: "w = (q, a)" by (cases w)
  from Cons.prems(1) w obtain t1 where t1: "objectPath_set t q (TUpload a) = Some t1"
    and r: "set_all t1 ws = Some t'" by (auto split: option.splits)
  show ?case
  proof (cases i)
    case 0
    with Cons.prems(3) w have ne: "q \<noteq> []" by simp
    from objectPath_get_set_same [OF t1 ne]
    have g: "objectPath_get t1 q = Some (TUpload a)" .
    have "\<forall>j < length ws. fst (ws ! j) \<noteq> [] \<longrightarrow> \<not> prefix (split_dot (fst (ws ! j))) (split_dot q)"
    proof (intro allI impI)
      fix j assume "j < length ws" "fst (ws ! j) \<noteq> []"
      with Cons.prems(4) [unfolded survives_def, rule_format, of "Suc j"] 0 w
      show "\<not> prefix (split_dot (fst (ws ! j))) (split_dot q)" by simp
    qed
    from set_all_keeps [OF r g this] show ?thesis using 0 w by simp
  next
    case (Suc i')
    with Cons.prems have "i' < length ws" "fst (ws ! i') \<noteq> []" "survives ws i'"
      by (simp_all add: survives_Cons)
    from Cons.IH [OF r this] show ?thesis using Suc by simp
  qed
qed

lemma set_all_append:
  "set_all t (xs @ ys) = (case set_all t xs of None \<Rightarrow> None | Some t1 \<Rightarrow> set_all t1 ys)"
  by (induction xs arbitrary: t) (auto split: option.splits)

lemma bind_paths_roots:
  "bind_paths s k a i ps = Inr s' \<Longrightarrow> operationsPath s = Some r \<Longrightarrow> r < length (roots s) \<Longrightarrow>
   set_all (roots s ! r) (map (\<lambda>q. (path_of q, a)) ps) = Some (roots s' ! r)"
proof (induction s k a i ps rule: bind_paths.induct)
  case (1 s fieldName a index)
  then show ?case by simp
next
  case (2 s fieldName a index p paths)
  from "2.prems"(1) obtain path s1 where p: "p = JStr path"
    and s1: "operationsPath_set s path (TUpload a) = Some s1"
    and rest: "bind_paths s1 fieldName a (Suc index) paths = Inr s'"
    by (auto split: json.splits option.splits)
  from s1 "2.prems"(2) obtain t1 where t1: "objectPath_set (roots s ! r) path (TUpload a) = Some t1"
    and s1': "s1 = s\<lparr> roots := (roots s)[r := t1] \<rparr>"
    by (auto simp: operationsPath_set_def split: option.splits)
  have o1: "operationsPath s1 = Some r" and l1: "r < length (roots s1)"
    and r1: "roots s1 ! r = t1"
    using "2.prems"(2,3) s1' by simp_all
  from "2.IH" [OF p s1 rest o1 l1] show ?case using p t1 r1 by simp
qed


lemma bind_entries_roots:
  "bind_entries s es = Inr s' \<Longrightarrow> operationsPath s = Some r \<Longrightarrow> r < length (roots s) \<Longrightarrow>
   set_all (roots s ! r) (writes (length (uploads s)) es) = Some (roots s' ! r)"
proof (induction s es rule: bind_entries.induct)
  case (1 s)
  then show ?case by simp
next
  case (2 s fieldName p rest)
  define s1 where "s1 = s\<lparr> uploads := uploads s @ [new_Upload],
      map_tbl := Some (AList.update fieldName (length (uploads s)) (the_map s)) \<rparr>"
  from "2.prems"(1) obtain paths s2 where p: "p = JArr paths"
    and b: "bind_paths s1 fieldName (length (uploads s)) 0 paths = Inr s2"
    and rest: "bind_entries s2 rest = Inr s'"
    by (auto simp: s1_def split: json.splits sum.splits)
  have o1: "operationsPath s1 = Some r" and l1: "r < length (roots s1)"
    using "2.prems"(2,3) by (simp_all add: s1_def)
  from bind_paths_roots [OF b o1 l1]
  have w1: "set_all (roots s ! r) (map (\<lambda>q. (path_of q, length (uploads s))) paths)
      = Some (roots s2 ! r)"
    by (simp add: s1_def)
  from bind_paths_shape [of s1 fieldName "length (uploads s)" 0 paths s2] b
  obtain rs where s2: "s2 = s1\<lparr> roots := rs \<rparr>" and lr: "length rs = length (roots s1)"
    by auto
  have o2: "operationsPath s2 = Some r" and l2: "r < length (roots s2)"
    and u2: "length (uploads s2) = Suc (length (uploads s))"
    using o1 l1 lr unfolding s2 by (simp_all add: s1_def)
  from "2.IH" [OF p b [unfolded s1_def] rest o2 l2]
  have w2: "set_all (roots s2 ! r) (writes (Suc (length (uploads s))) rest) = Some (roots s' ! r)"
    unfolding u2 .
  show ?case using p w1 w2 by (simp add: set_all_append)
qed

lemma writes_ex_map:
  "writes 0 (Object_entries ex_map)
     = [(''variables.file'', 0), (''variables.files.1'', 0), (''variables.files.0'', 1)]"
  by (simp add: ex_map_def)

text \<open>
  C1, as amended. After any events that have led neither to an exit nor to a table, with
  \<^verbatim>\<open>operations\<close> referring to a parsed object or array: if a \<^verbatim>\<open>map\<close> field that is
  not truncated and parses to an object (of distinct keys) is handled without an exit,
  then the overall result, pending until then, is resolved by that event with the reference
  \<^verbatim>\<open>operations\<close> holds, while no file has been handled; the uploads are one new pending
  upload per entry, the table maps the key of entry number \<open>n\<close> to the upload at
  address \<open>n\<close>, and every write made for that entry writes that address; and in the
  operations the result refers to, every path that is not empty and that no later write
  overwrote (no later path equal to it or leading to a place above it) holds the reference
  to the upload of its entry.
\<close>

theorem map_bound:
  assumes h: "exitError (run opts evs) = None"
    and m: "map_tbl (run opts evs) = None"
    and o: "operations (run opts evs) = Some (Ref r)"
    and d: "distinct (map fst es)"
    and b: "exitError (step opts (run opts evs) (Field ''map'' (Some (JObj es)) False)) = None"
  shows "outer (run opts evs) = Pending
    \<and> outer (step opts (run opts evs) (Field ''map'' (Some (JObj es)) False))
        = Resolved (Some (Ref r))
    \<and> files (step opts (run opts evs) (Field ''map'' (Some (JObj es)) False)) = []
    \<and> uploads (step opts (run opts evs) (Field ''map'' (Some (JObj es)) False))
        = replicate (length es) new_Upload
    \<and> map_tbl (step opts (run opts evs) (Field ''map'' (Some (JObj es)) False))
        = Some (zip (map fst es) [0..<length es])
    \<and> (\<forall>i < length (writes 0 es).
          fst (writes 0 es ! i) \<noteq> [] \<and> survives (writes 0 es) i \<longrightarrow>
          objectPath_get
            (roots (step opts (run opts evs) (Field ''map'' (Some (JObj es)) False)) ! r)
            (fst (writes 0 es ! i))
          = Some (TUpload (snd (writes 0 es ! i))))"
proof -
  let ?s = "run opts evs"
  let ?t = "?s\<lparr> map_tbl := Some [] \<rparr>"
  let ?s' = "step opts ?s (Field ''map'' (Some (JObj es)) False)"
  have p: "outer ?s = Pending" using live(3) [OF h m] .
  have u0: "uploads ?s = []" and f0: "files ?s = []" using always(3) [OF m] by simp_all
  have op: "operationsPath ?s = Some r" using always(5) [OF o] .
  have lr: "r < length (roots ?s)" using always(4) [OF op] .
  have nf: "\<not> is_falsy (operations ?s)" using o by simp
  have st: "?s' =
      (if enat (length es) > maxFiles opts then
         exit ?s (createError 413 (MaxFilesExceeded (maxFiles opts))) False
       else
         (case bind_entries ?t es of
            Inl (e, s') \<Rightarrow> exit s' e False
          | Inr s' \<Rightarrow> s'\<lparr> outer := resolve_p (outer s') (operations s') \<rparr>))"
    using nf by (simp add: on_field_def)
  from b st obtain s2 where s2: "bind_entries ?t es = Inr s2"
    and s': "?s' = s2\<lparr> outer := resolve_p (outer s2) (operations s2) \<rparr>"
    by (cases "bind_entries ?t es")
       (auto simp: exitError_exit split: if_splits prod.splits)
  from bind_entries_shape [of ?t es s2 undefined "[]"] s2
  obtain rs k tbl where
    sh: "s2 = ?s\<lparr> map_tbl := Some [], roots := rs,
                  uploads := uploads ?s @ replicate k new_Upload, map_tbl := Some tbl \<rparr>"
    by auto
  have o2: "outer s2 = Pending" "operations s2 = Some (Ref r)" "files s2 = []"
    using p o f0 unfolding sh by simp_all
  from bind_entries_table [of ?t es s2 undefined "[]"] s2 d u0
  have tb: "uploads s2 = replicate (length es) new_Upload"
    "map_tbl s2 = Some (zip (map fst es) [0..<length es])"
    by auto
  from bind_entries_roots [OF s2, of r] op lr u0
  have w: "set_all (roots ?s ! r) (writes 0 es) = Some (roots s2 ! r)" by simp
  have g: "objectPath_get (roots s2 ! r) (fst (writes 0 es ! i))
      = Some (TUpload (snd (writes 0 es ! i)))"
    if "i < length (writes 0 es)" "fst (writes 0 es ! i) \<noteq> []" "survives (writes 0 es) i" for i
    using set_all_get [OF w that] .
  show ?thesis
    unfolding s' using p o2 tb g by simp
qed


text \<open>
  The example request: the three paths of its map hold the uploads of their entries, the
  first upload at two of them.
\<close>

theorem map_bound_witness:
  "exitError (run default_options [Field ''operations'' (Some ex_operations) False]) = None
   \<and> map_tbl (run default_options [Field ''operations'' (Some ex_operations) False]) = None
   \<and> operations (run default_options [Field ''operations'' (Some ex_operations) False])
       = Some (Ref 0)
   \<and> distinct (map fst (Object_entries ex_map))
   \<and> exitError (run default_options ex_fields) = None
   \<and> outer (run default_options ex_fields) = Resolved (Some (Ref 0))
   \<and> map_tbl (run default_options ex_fields) = Some [(''0'', 0), (''1'', 1)]
   \<and> objectPath_get (roots (run default_options ex_fields) ! 0) ''variables.file''
       = Some (TUpload 0)
   \<and> objectPath_get (roots (run default_options ex_fields) ! 0) ''variables.files.1''
       = Some (TUpload 0)
   \<and> objectPath_get (roots (run default_options ex_fields) ! 0) ''variables.files.0''
       = Some (TUpload 1)"
proof -
  let ?s = "run default_options [Field ''operations'' (Some ex_operations) False]"
  have e: "step default_options ?s (Field ''map'' (Some (JObj (Object_entries ex_map))) False)
      = run default_options ex_fields"
    using run_append [of default_options "[Field ''operations'' (Some ex_operations) False]"
        "[Field ''map'' (Some ex_map) False]"]
    by (simp add: ex_fields_def run_from_def ex_map_def)
  have h: "exitError ?s = None" and m: "map_tbl ?s = None" and o: "operations ?s = Some (Ref 0)"
    by (simp_all add: run_ex_operations ex_parsed_def init_def)
  have d: "distinct (map fst (Object_entries ex_map))" by (simp add: ex_map_def)
  have b: "exitError (step default_options ?s
      (Field ''map'' (Some (JObj (Object_entries ex_map))) False)) = None"
    unfolding e by (simp add: run_ex_fields ex_bound_def init_def)
  note t = map_bound [OF h m o d b, unfolded e writes_ex_map]
  have sv: "survives [(''variables.file'', 0), (''variables.files.1'', 0),
      (''variables.files.0'', 1 :: nat)] i" if "i < 3" for i
    using that by (auto simp: survives_def less_Suc_eq numeral_3_eq_3 nth_Cons')
  have g: "objectPath_get (roots (run default_options ex_fields) ! 0)
      (fst ([(''variables.file'', 0), (''variables.files.1'', 0),
             (''variables.files.0'', 1 :: nat)] ! i))
      = Some (TUpload (snd ([(''variables.file'', 0), (''variables.files.1'', 0),
             (''variables.files.0'', 1 :: nat)] ! i)))" if "i < 3" for i
    using t sv [OF that] that by (auto simp: less_Suc_eq numeral_3_eq_3 nth_Cons')
  have t2: "outer (run default_options ex_fields) = Resolved (Some (Ref 0))"
    "map_tbl (run default_options ex_fields) = Some [(''0'', 0), (''1'', 1)]"
    using t d by (simp_all add: ex_map_def upt_rec)
  show ?thesis
    using h m o d b [unfolded e] t2 g [of 0] g [of 1] g [of 2] by simp
qed

text \<open>
  C1 as stated fails: when two entries of the map name the same path, the map is bound
  without error and the path holds the upload of the second entry, not that of the first.
\<close>

theorem shared_path_counterexample:
  "exitError (run default_options
      [Field ''operations'' (Some ex_operations) False,
       Field ''map'' (Some ex_shared_map) False]) = None
   \<and> outer (run default_options
      [Field ''operations'' (Some ex_operations) False,
       Field ''map'' (Some ex_shared_map) False]) = Resolved (Some (Ref 0))
   \<and> map_tbl (run default_options
      [Field ''operations'' (Some ex_operations) False,
       Field ''map'' (Some ex_shared_map) False]) = Some [(''0'', 0), (''1'', 1)]
   \<and> objectPath_get (roots (run default_options
      [Field ''operations'' (Some ex_operations) False,
       Field ''map'' (Some ex_shared_map) False]) ! 0) ''variables.file'' = Some (TUpload 1)"
  by (simp add: eval_simps ex_operations_def ex_shared_map_def default_options_def
      objectPath_get_def)

end
